theory Spec2Isabelle
  imports Main "HOL-Library.Word" "HOL-Library.Multiset"
begin

unbundle bit_operations_syntax

section \<open>list-posts.c: the manifest of a posts directory\<close>

text \<open>
  The program reads the directory \<^verbatim>\<open>posts\<close>, copies the metadata header of every file
  whose name does not begin with a dot into one JSON object per file, packs the date
  line of the header into a 64-bit key, sorts the records with \<^verbatim>\<open>qsort\<close> and prints
  the objects between \<^verbatim>\<open>[\<close> and \<^verbatim>\<open>]\<close>.

  The embedding follows the C source function by function. A byte is a \<^typ>\<open>char\<close>, a
  character array is a \<^typ>\<open>string\<close>, and what C reads from an array as a string is
  the part before the first zero byte. The file system and the C library are outside
  the program: a directory is given as the entries \<^verbatim>\<open>readdir\<close> returns, each with what
  \<^verbatim>\<open>fopen\<close> gives for its name after the \<^verbatim>\<open>chdir\<close> of line 44, and \<^verbatim>\<open>qsort\<close> is a
  parameter of \<open>main\<close>.
  Lines are assumed shorter than \<open>2^31\<close> bytes, so that the \<^verbatim>\<open>int\<close> variables
  \<^verbatim>\<open>len\<close> and \<^verbatim>\<open>key_len\<close> hold the lengths they are assigned.
\<close>

subsection \<open>C strings and the library calls the program makes\<close>

definition NUL :: char where
  "NUL = CHR 0x00"

text \<open>The string a \<^verbatim>\<open>char *\<close> denotes: the bytes before the first zero byte.\<close>

definition c_str :: "string \<Rightarrow> string" where
  "c_str s = takeWhile (\<lambda>c. c \<noteq> NUL) s"

text \<open>\<^verbatim>\<open>strchr(s, c)\<close> for \<open>c \<noteq> NUL\<close>: the offset of the first \<open>c\<close> in the string,
  \<open>None\<close> for the null pointer.\<close>

definition strchr :: "string \<Rightarrow> char \<Rightarrow> nat option" where
  "strchr s c =
     (if c \<in> set (c_str s) then Some (length (takeWhile (\<lambda>x. x \<noteq> c) (c_str s))) else None)"

text \<open>\<^verbatim>\<open>strncmp\<close> and \<^verbatim>\<open>strcmp\<close>: the difference of the first two bytes that differ,
  a string that ends being read as ending in a zero byte.\<close>

fun strncmp :: "string \<Rightarrow> string \<Rightarrow> nat \<Rightarrow> int" where
  "strncmp a b 0 = 0"
| "strncmp a b (Suc n) =
     (let x = (case a of [] \<Rightarrow> NUL | c # _ \<Rightarrow> c);
          z = (case b of [] \<Rightarrow> NUL | c # _ \<Rightarrow> c)
      in if x \<noteq> z then int (of_char x) - int (of_char z)
         else if x = NUL then 0
         else strncmp (tl a) (tl b) n)"

definition strcmp :: "string \<Rightarrow> string \<Rightarrow> int" where
  "strcmp a b = strncmp a b (Suc (max (length a) (length b)))"

text \<open>The conversion \<^verbatim>\<open>%.*s\<close> of \<^verbatim>\<open>printf\<close>: at most \<open>prec\<close> bytes of the string,
  all of it when the precision is negative.\<close>

definition fmt_s :: "int \<Rightarrow> string \<Rightarrow> string" where
  "fmt_s prec s = (if prec < 0 then c_str s else take (nat prec) (c_str s))"

text \<open>The conversion \<^verbatim>\<open>%d\<close> of a count.\<close>

fun dec :: "nat \<Rightarrow> string" where
  "dec n = (if n < 10 then [''0123456789'' ! n]
            else dec (n div 10) @ [''0123456789'' ! (n mod 10)])"

declare dec.simps [simp del]

text \<open>\<^verbatim>\<open>getline\<close>, called until it returns -1: the lines of a file's contents, each
  with its newline, the last one without when the file does not end in one.\<close>

fun getlines :: "string \<Rightarrow> string list" where
  "getlines [] = []"
| "getlines (c # cs) =
     (if c = CHR 0x0A then [c] # getlines cs
      else (case getlines cs of [] \<Rightarrow> [[c]] | l # ls \<Rightarrow> (c # l) # ls))"

text \<open>\<^verbatim>\<open>perror(s)\<close>, with the message of the error that was set.\<close>

definition perror :: "string \<Rightarrow> string \<Rightarrow> string" where
  "perror s msg = c_str s @ '': '' @ msg @ ''\<newline>''"

subsection \<open>Data\<close>

record Post =
  date :: "64 word"
  json :: nat

text \<open>\<open>json\<close> is the pointer into \<^verbatim>\<open>buffer\<close>, as an offset from its start.\<close>

record DateString =
  y :: string
  hyphen1 :: char
  m :: string
  hyphen2 :: char
  d :: string

definition MAX_POSTS :: nat where
  "MAX_POSTS = 100"

definition METADATA_MAX_SIZE :: nat where
  "METADATA_MAX_SIZE = 256"

definition BUFFER_SIZE :: nat where
  "BUFFER_SIZE = MAX_POSTS * METADATA_MAX_SIZE"

text \<open>What \<^verbatim>\<open>opendir\<close> and \<^verbatim>\<open>fopen\<close> give: a failure with its message, or the
  thing opened. A directory is the list of its entries in the order of \<^verbatim>\<open>readdir\<close>,
  each a name and the result of opening it.\<close>

datatype 'a opened = Fails string | Opens 'a

type_synonym dirent = "string \<times> string opened"

text \<open>How a run ends: it returns with an exit code, having written to the standard
  output and to the error stream, or it does something whose behaviour C leaves
  undefined, where the model stops.\<close>

datatype undefined_behaviour =
    Buffer_Overrun
  | Posts_Overrun nat
  | Read_Past_Line

datatype outcome =
    Exit int string string
  | Undefined undefined_behaviour

text \<open>The state of the loop over the directory: the bytes written to \<^verbatim>\<open>buffer\<close> so
  far (\<^verbatim>\<open>buf\<close> points behind them) and \<^verbatim>\<open>posts[0 .. nposts - 1]\<close>.\<close>

record scan =
  buf :: string
  posts :: "Post list"

subsection \<open>The comparison function\<close>

definition cmp_posts :: "Post \<Rightarrow> Post \<Rightarrow> int" where
  "cmp_posts lhs rhs =
     (let lhs_date = date lhs;
          rhs_date = date rhs;
          delta = rhs_date - rhs_date
      in (if 0 < sint delta then 1 else 0) - (if sint delta < 0 then 1 else 0))"

subsection \<open>Reading one header\<close>

text \<open>\<^verbatim>\<open>sprintf(buf, ...)\<close> writes the text and a zero byte behind it, and \<^verbatim>\<open>buf\<close>
  advances by the length of the text.\<close>

definition sprintf :: "string \<Rightarrow> string \<Rightarrow> outcome + string" where
  "sprintf b s =
     (if length b + length s + 1 \<le> BUFFER_SIZE then Inr (b @ s)
      else Inl (Undefined Buffer_Overrun))"

definition metadata_separator :: string where
  "metadata_separator = ''---\<newline>''"

definition date_line_len :: nat where
  "date_line_len = length (c_str ''date: YYYY-MM-DD\<newline>'')"

text \<open>Lines 72 to 74: the field is printed from \<^verbatim>\<open>line\<close> and from \<^verbatim>\<open>colon + 2\<close>.
  When the colon is the last byte that \<^verbatim>\<open>getline\<close> stored, \<^verbatim>\<open>colon + 2\<close> points
  behind the terminating zero byte.\<close>

definition field_text :: "string \<Rightarrow> nat \<Rightarrow> string" where
  "field_text line key_len =
     '', \"'' @ fmt_s (int key_len) line @ ''\": \"''
       @ fmt_s (int (length line) - int key_len - 3) (drop (key_len + 2) line) @ ''\"''"

definition emit_field :: "string \<Rightarrow> nat \<Rightarrow> string \<Rightarrow> outcome + string" where
  "emit_field line key_len b =
     (if length line < key_len + 2 then Inl (Undefined Read_Past_Line)
      else sprintf b (field_text line key_len))"

text \<open>Line 80: the ten bytes at \<^verbatim>\<open>colon + 2\<close> read as a \<^verbatim>\<open>struct DateString\<close>.\<close>

fun overlay :: "string \<Rightarrow> DateString option" where
  "overlay (y0 # y1 # y2 # y3 # h1 # m0 # m1 # h2 # d0 # d1 # rest) =
     Some \<lparr>y = [y0, y1, y2, y3], hyphen1 = h1, m = [m0, m1], hyphen2 = h2, d = [d0, d1]\<rparr>"
| "overlay other = None"

text \<open>Lines 81 to 84.\<close>

definition pack :: "DateString \<Rightarrow> 64 word" where
  "pack s =
     push_bit 56 (of_char (y s ! 0)) OR push_bit 48 (of_char (y s ! 1)) OR
     push_bit 40 (of_char (y s ! 2)) OR push_bit 32 (of_char (y s ! 3)) OR
     push_bit 24 (of_char (m s ! 0)) OR push_bit 16 (of_char (m s ! 1)) OR
     push_bit 8 (of_char (d s ! 0)) OR of_char (d s ! 1)"

text \<open>The body of the inner loop, lines 67 to 86, on the pointer \<^verbatim>\<open>buf\<close> and on
  \<^verbatim>\<open>post.date\<close>.\<close>

definition header_line :: "string \<Rightarrow> string \<Rightarrow> string \<times> 64 word \<Rightarrow> outcome + string \<times> 64 word" where
  "header_line name line st =
     (case strchr line CHR '':'' of
        None \<Rightarrow> Inl (Exit 1 [] (c_str name @ '': missing colon in line:\<newline>'' @ [CHR 0x09] @ c_str line))
      | Some key_len \<Rightarrow>
          (case emit_field line key_len (fst st) of
             Inl stop \<Rightarrow> Inl stop
           | Inr b \<Rightarrow>
               if strncmp line ''date'' key_len = 0 then
                 if length line \<noteq> date_line_len then
                   Inl (Exit 1 [] (c_str name @ '': malformed date line:\<newline>'' @ [CHR 0x09] @ c_str line))
                 else
                   (case overlay (drop (key_len + 2) line) of
                      None \<Rightarrow> Inl (Undefined Read_Past_Line)
                    | Some s \<Rightarrow> Inr (b, pack s))
               else Inr (b, snd st)))"

text \<open>The inner loop, lines 65 to 87, over the lines that \<^verbatim>\<open>getline\<close> returns.\<close>

fun read_header :: "string \<Rightarrow> string list \<Rightarrow> string \<times> 64 word \<Rightarrow> outcome + string \<times> 64 word" where
  "read_header name [] st = Inr st"
| "read_header name (line # rest) st =
     (if strcmp line metadata_separator = 0 then Inr st
      else (case header_line name line st of
              Inl stop \<Rightarrow> Inl stop
            | Inr st' \<Rightarrow> read_header name rest st'))"

subsection \<open>The loop over the directory and \<open>main\<close>\<close>

text \<open>Line 50: \<^verbatim>\<open>name[0] == '.'\<close>.\<close>

definition hidden :: "string \<Rightarrow> bool" where
  "hidden name = (case c_str name of [] \<Rightarrow> False | c # cs \<Rightarrow> c = CHR ''.'')"

text \<open>The body of the outer loop, lines 49 to 95. \<^verbatim>\<open>struct Post post\<close> is not
  initialised: \<open>junk n\<close> is what \<^verbatim>\<open>post.date\<close> holds when the loop body starts with
  \<open>nposts = n\<close>, and what it still holds when no line of the header assigns it. The
  record is stored in \<^verbatim>\<open>posts[nposts]\<close> (line 91) before \<^verbatim>\<open>nposts\<close> is compared with
  \<^verbatim>\<open>MAX_POSTS\<close> (line 92).\<close>

definition read_post :: "(nat \<Rightarrow> 64 word) \<Rightarrow> dirent \<Rightarrow> scan \<Rightarrow> outcome + scan" where
  "read_post junk ent st =
     (let name = fst ent in
      if hidden name then Inr st
      else
        (case sprintf (buf st) (''{\"path\": \"'' @ c_str name @ ''\"'') of
           Inl stop \<Rightarrow> Inl stop
         | Inr b1 \<Rightarrow>
             (case snd ent of
                Fails msg \<Rightarrow> Inl (Exit 1 [] (perror name msg))
              | Opens contents \<Rightarrow>
                  (case read_header name (tl (getlines contents)) (b1, junk (length (posts st))) of
                     Inl stop \<Rightarrow> Inl stop
                   | Inr (b2, post_date) \<Rightarrow>
                       if BUFFER_SIZE < length b2 + 2 then Inl (Undefined Buffer_Overrun)
                       else if MAX_POSTS \<le> length (posts st)
                         then Inl (Undefined (Posts_Overrun (length (posts st))))
                       else
                         (let post = \<lparr>date = post_date, json = length (buf st)\<rparr>;
                              st' = \<lparr>buf = b2 @ ''}'' @ [NUL], posts = posts st @ [post]\<rparr>
                          in if MAX_POSTS < length (posts st')
                             then Inl (Exit 1 [] (''too many posts ('' @ dec (length (posts st')) @ '')\<newline>''))
                             else Inr st')))))"

fun read_dir :: "(nat \<Rightarrow> 64 word) \<Rightarrow> dirent list \<Rightarrow> scan \<Rightarrow> outcome + scan" where
  "read_dir junk [] st = Inr st"
| "read_dir junk (ent # ents) st =
     (case read_post junk ent st of
        Inl stop \<Rightarrow> Inl stop
      | Inr st' \<Rightarrow> read_dir junk ents st')"

text \<open>\<^verbatim>\<open>puts(posts[i].json)\<close>.\<close>

definition puts :: "string \<Rightarrow> Post \<Rightarrow> string" where
  "puts b p = c_str (drop (json p) b) @ ''\<newline>''"

definition posts_dir :: string where
  "posts_dir = ''posts''"

definition main ::
  "(nat \<Rightarrow> 64 word) \<Rightarrow> ((Post \<Rightarrow> Post \<Rightarrow> int) \<Rightarrow> Post list \<Rightarrow> Post list) \<Rightarrow> dirent list opened \<Rightarrow> outcome" where
  "main junk qsort dir =
     (case dir of
        Fails msg \<Rightarrow> Exit 1 [] (perror posts_dir msg)
      | Opens ents \<Rightarrow>
          (case read_dir junk ents \<lparr>buf = [], posts = []\<rparr> of
             Inl stop \<Rightarrow> stop
           | Inr st \<Rightarrow>
               Exit 0 (''[\<newline>'' @ concat (map (puts (buf st)) (qsort cmp_posts (posts st))) @ '']\<newline>'') []))"

subsection \<open>The contract of \<^verbatim>\<open>qsort\<close>, and two functions that meet it\<close>

text \<open>A comparison function is consistent when it orders the elements totally. For
  such a function \<^verbatim>\<open>qsort\<close> returns the elements of the array in ascending order; the
  order of elements that compare equal is unspecified.\<close>

definition consistent :: "('a \<Rightarrow> 'a \<Rightarrow> int) \<Rightarrow> bool" where
  "consistent cmp =
     ((\<forall>a b. (cmp a b \<le> 0) = (0 \<le> cmp b a)) \<and>
      (\<forall>a b c. cmp a b \<le> 0 \<and> cmp b c \<le> 0 \<longrightarrow> cmp a c \<le> 0))"

definition qsort_conforms :: "(('a \<Rightarrow> 'a \<Rightarrow> int) \<Rightarrow> 'a list \<Rightarrow> 'a list) \<Rightarrow> bool" where
  "qsort_conforms qsort =
     (\<forall>cmp xs. consistent cmp \<longrightarrow>
        mset (qsort cmp xs) = mset xs \<and> sorted_wrt (\<lambda>a b. cmp a b \<le> 0) (qsort cmp xs))"

text \<open>Insertion sort, which keeps elements that compare equal in their order.\<close>

fun insert_by :: "('a \<Rightarrow> 'a \<Rightarrow> int) \<Rightarrow> 'a \<Rightarrow> 'a list \<Rightarrow> 'a list" where
  "insert_by cmp x [] = [x]"
| "insert_by cmp x (z # zs) = (if cmp x z \<le> 0 then x # z # zs else z # insert_by cmp x zs)"

definition stable_qsort :: "('a \<Rightarrow> 'a \<Rightarrow> int) \<Rightarrow> 'a list \<Rightarrow> 'a list" where
  "stable_qsort cmp xs = foldr (insert_by cmp) xs []"

text \<open>A sort that does not: like a quicksort that moves its pivot to the front, it
  first exchanges the first element of an array of seven or more elements with the one
  in the middle, and then sorts by insertion.\<close>

definition pivoting_qsort :: "('a \<Rightarrow> 'a \<Rightarrow> int) \<Rightarrow> 'a list \<Rightarrow> 'a list" where
  "pivoting_qsort cmp xs =
     stable_qsort cmp
       (if length xs < 7 then xs
        else xs[0 := xs ! (length xs div 2), length xs div 2 := xs ! 0])"

text \<open>A sort is stable when the elements that compare equal to any given one keep
  their order.\<close>

definition qsort_stable :: "(('a \<Rightarrow> 'a \<Rightarrow> int) \<Rightarrow> 'a list \<Rightarrow> 'a list) \<Rightarrow> bool" where
  "qsort_stable qsort =
     (\<forall>cmp xs a. consistent cmp \<longrightarrow>
        filter (\<lambda>x. cmp x a = 0) (qsort cmp xs) = filter (\<lambda>x. cmp x a = 0) xs)"

subsection \<open>Notions the properties are stated with\<close>

text \<open>The lines the inner loop goes through: those after the first, up to the
  separator or the end of the file.\<close>

definition header_lines :: "string \<Rightarrow> string list" where
  "header_lines contents =
     takeWhile (\<lambda>line. strcmp line metadata_separator \<noteq> 0) (tl (getlines contents))"

text \<open>The lines for which the test of line 75 succeeds, and the key that lines 80 to
  85 take from a line.\<close>

definition date_line :: "string \<Rightarrow> bool" where
  "date_line line =
     (case strchr line CHR '':'' of
        None \<Rightarrow> False
      | Some key_len \<Rightarrow> strncmp line ''date'' key_len = 0)"

definition date_of_line :: "string \<Rightarrow> 64 word option" where
  "date_of_line line =
     (case strchr line CHR '':'' of
        None \<Rightarrow> None
      | Some key_len \<Rightarrow> map_option pack (overlay (drop (key_len + 2) line)))"

text \<open>The last line of a header that is taken as a date line.\<close>

definition last_date_line :: "string \<Rightarrow> string option" where
  "last_date_line contents =
     (case rev (filter date_line (header_lines contents)) of
        [] \<Rightarrow> None
      | line # older \<Rightarrow> Some line)"

text \<open>The text one header line adds to the object, and the object of a file.\<close>

definition field_of :: "string \<Rightarrow> string" where
  "field_of line =
     (case strchr line CHR '':'' of None \<Rightarrow> [] | Some key_len \<Rightarrow> field_text line key_len)"

definition object_text :: "string \<Rightarrow> string \<Rightarrow> string" where
  "object_text name contents =
     ''{\"path\": \"'' @ c_str name @ ''\"'' @ concat (map field_of (header_lines contents)) @ ''}''"

text \<open>The strings at which the pointers \<open>json\<close> of the records point.\<close>

definition objects :: "scan \<Rightarrow> string list" where
  "objects st = map (\<lambda>p. c_str (drop (json p) (buf st))) (posts st)"

definition terminated :: "scan \<Rightarrow> bool" where
  "terminated st = list_all (\<lambda>p. NUL \<in> set (drop (json p) (buf st))) (posts st)"

text \<open>The objects of the entries that are not skipped, in the order of the directory.\<close>

definition visible_objects :: "dirent list \<Rightarrow> string list" where
  "visible_objects ents =
     concat (map (\<lambda>ent. case snd ent of
                          Fails msg \<Rightarrow> []
                        | Opens contents \<Rightarrow>
                            if hidden (fst ent) then [] else [object_text (fst ent) contents])
                 ents)"

text \<open>The specification's side. A metadata line is \<^verbatim>\<open>key: value\<close> and a newline; the
  object of a file is the path and then one string field for each pair; a byte
  sequence is read as a big-endian integer; a date \<^verbatim>\<open>YYYY-MM-DD\<close> made of digits
  stands for a year, a month and a day, and dates are ordered by the calendar.\<close>

text \<open>Bytes that stand for themselves in a JSON string: no quote, no backslash and
  no control character.\<close>

definition plain :: "string \<Rightarrow> bool" where
  "plain s = list_all (\<lambda>c. c \<noteq> CHR 0x22 \<and> c \<noteq> CHR 0x5C \<and> 32 \<le> (of_char c :: nat)) s"

definition metadata_line :: "string \<times> string \<Rightarrow> string" where
  "metadata_line kv = fst kv @ '': '' @ snd kv @ ''\<newline>''"

definition json_field :: "string \<times> string \<Rightarrow> string" where
  "json_field kv = '', \"'' @ fst kv @ ''\": \"'' @ snd kv @ ''\"''"

definition json_object :: "string \<Rightarrow> (string \<times> string) list \<Rightarrow> string" where
  "json_object path kvs = ''{\"path\": \"'' @ path @ ''\"'' @ concat (map json_field kvs) @ ''}''"

text \<open>How a reader of JSON reads such a text (RFC 8259): a string runs to its closing
  quote, a backslash and the byte after it stand for one byte, and a control character
  cannot stand in a string; an object is read as the list of its members, each a string
  for the name and a string for the value. Escapes with \<^verbatim>\<open>u\<close> are not read.\<close>

definition unescape :: "char \<Rightarrow> char option" where
  "unescape e =
     (if e = CHR 0x22 \<or> e = CHR 0x5C \<or> e = CHR ''/'' then Some e
      else if e = CHR ''b'' then Some (CHR 0x08)
      else if e = CHR ''f'' then Some (CHR 0x0C)
      else if e = CHR ''n'' then Some (CHR 0x0A)
      else if e = CHR ''r'' then Some (CHR 0x0D)
      else if e = CHR ''t'' then Some (CHR 0x09)
      else None)"

fun json_string :: "string \<Rightarrow> (string \<times> string) option" where
  "json_string [] = None"
| "json_string [c] = (if c = CHR 0x22 then Some ([], []) else None)"
| "json_string (c # e # cs) =
     (if c = CHR 0x22 then Some ([], e # cs)
      else if c = CHR 0x5C then
        (case unescape e of
           None \<Rightarrow> None
         | Some x \<Rightarrow> map_option (\<lambda>r. (x # fst r, snd r)) (json_string cs))
      else if (of_char c :: nat) < 32 then None
      else map_option (\<lambda>r. (c # fst r, snd r)) (json_string (e # cs)))"

definition ws :: "string \<Rightarrow> string" where
  "ws t = dropWhile (\<lambda>c. c = CHR '' '' \<or> c = CHR 0x09 \<or> c = CHR 0x0A \<or> c = CHR 0x0D) t"

definition json_member :: "string \<Rightarrow> ((string \<times> string) \<times> string) option" where
  "json_member t =
     (case ws t of
        [] \<Rightarrow> None
      | q # t1 \<Rightarrow>
          if q \<noteq> CHR 0x22 then None
          else (case json_string t1 of
                  None \<Rightarrow> None
                | Some name_rest \<Rightarrow>
                    (case ws (snd name_rest) of
                       [] \<Rightarrow> None
                     | c # t2 \<Rightarrow>
                         if c \<noteq> CHR '':'' then None
                         else (case ws t2 of
                                 [] \<Rightarrow> None
                               | q' # t3 \<Rightarrow>
                                   if q' \<noteq> CHR 0x22 then None
                                   else (case json_string t3 of
                                           None \<Rightarrow> None
                                         | Some value_rest \<Rightarrow>
                                             Some ((fst name_rest, fst value_rest), snd value_rest))))))"

text \<open>The members after the first, up to the closing brace; \<open>n\<close> bounds their number.\<close>

fun json_members :: "nat \<Rightarrow> string \<Rightarrow> (string \<times> string) list option" where
  "json_members 0 t = None"
| "json_members (Suc n) t =
     (case ws t of
        [] \<Rightarrow> None
      | c # t1 \<Rightarrow>
          if c = CHR ''}'' then (if ws t1 = [] then Some [] else None)
          else if c = CHR '','' then
            (case json_member t1 of
               None \<Rightarrow> None
             | Some member_rest \<Rightarrow>
                 map_option ((#) (fst member_rest)) (json_members n (snd member_rest)))
          else None)"

definition json_read :: "string \<Rightarrow> (string \<times> string) list option" where
  "json_read t =
     (case ws t of
        [] \<Rightarrow> None
      | c # t1 \<Rightarrow>
          if c \<noteq> CHR ''{'' then None
          else (case ws t1 of
                  [] \<Rightarrow> None
                | c1 # t2 \<Rightarrow>
                    if c1 = CHR ''}'' then (if ws t2 = [] then Some [] else None)
                    else (case json_member t1 of
                            None \<Rightarrow> None
                          | Some member_rest \<Rightarrow>
                              map_option ((#) (fst member_rest))
                                (json_members (length (snd member_rest)) (snd member_rest)))))"

definition big_endian :: "string \<Rightarrow> 64 word" where
  "big_endian bytes = foldl (\<lambda>acc b. acc * 256 + of_char b) 0 bytes"

definition digit :: "char \<Rightarrow> bool" where
  "digit c = (48 \<le> (of_char c :: nat) \<and> (of_char c :: nat) \<le> 57)"

definition number :: "string \<Rightarrow> nat" where
  "number ds = foldl (\<lambda>n c. 10 * n + (of_char c - 48)) 0 ds"

definition ymd :: "string \<Rightarrow> string" where
  "ymd s = take 4 s @ take 2 (drop 5 s) @ take 2 (drop 8 s)"

definition date_digits :: "string \<Rightarrow> bool" where
  "date_digits s = (length s = 10 \<and> list_all digit (ymd s))"

definition calendar_less :: "string \<Rightarrow> string \<Rightarrow> bool" where
  "calendar_less s t =
     (number (take 4 s) < number (take 4 t) \<or>
      number (take 4 s) = number (take 4 t) \<and>
        (number (take 2 (drop 5 s)) < number (take 2 (drop 5 t)) \<or>
         number (take 2 (drop 5 s)) = number (take 2 (drop 5 t)) \<and>
           number (take 2 (drop 8 s)) < number (take 2 (drop 8 t))))"

text \<open>Eight bytes as a number, the first four, the next two and the last two grouped
  as the year, the month and the day are.\<close>

definition bytes_nat :: "char \<Rightarrow> char \<Rightarrow> char \<Rightarrow> char \<Rightarrow> char \<Rightarrow> char \<Rightarrow> char \<Rightarrow> char \<Rightarrow> nat" where
  "bytes_nat c0 c1 c2 c3 c4 c5 c6 c7 =
     (((of_char c0 * 256 + of_char c1) * 256 + of_char c2) * 256 + of_char c3) * 2 ^ 32 +
     ((of_char c4 * 256 + of_char c5) * 2 ^ 16 + (of_char c6 * 256 + of_char c7))"

section \<open>Properties\<close>

subsection \<open>Evaluating a run\<close>

lemmas run_defs =
  main_def read_post_def header_line_def emit_field_def field_text_def sprintf_def
  hidden_def c_str_def NUL_def strchr_def fmt_s_def strcmp_def metadata_separator_def
  date_line_len_def BUFFER_SIZE_def MAX_POSTS_def METADATA_MAX_SIZE_def puts_def
  perror_def pack_def posts_dir_def

subsection \<open>C strings\<close>

lemma c_str_Nil [simp]: "c_str [] = []"
  by (simp add: c_str_def)

lemma c_str_Cons: "c_str (c # cs) = (if c = NUL then [] else c # c_str cs)"
  by (simp add: c_str_def)

lemma NUL_notin_c_str: "NUL \<notin> set (c_str s)"
  by (auto simp: c_str_def dest: set_takeWhileD)

lemma of_char_diff_eq_0: "(int (of_char a) - int (of_char b) = 0) = (a = b)"
  by simp

lemma strncmp_eq_0_iff: "(strncmp a b n = 0) = (take n (c_str a) = take n (c_str b))"
proof (induction n arbitrary: a b)
  case 0
  show ?case by simp
next
  case (Suc n)
  show ?case
  proof (cases a)
    case Nil
    note a = Nil
    show ?thesis
    proof (cases b)
      case Nil
      with a show ?thesis by simp
    next
      case (Cons z zs)
      with a show ?thesis by (auto simp: c_str_Cons Let_def)
    qed
  next
    case (Cons x xs)
    note a = Cons
    show ?thesis
    proof (cases b)
      case Nil
      with a show ?thesis by (auto simp: c_str_Cons Let_def)
    next
      case (Cons z zs)
      with a Suc.IH [of xs zs] show ?thesis by (auto simp: c_str_Cons Let_def)
    qed
  qed
qed

lemma takeWhile_neq_mem:
  "c \<in> set s \<Longrightarrow>
   length (takeWhile (\<lambda>x. x \<noteq> c) s) < length s \<and> s ! length (takeWhile (\<lambda>x. x \<noteq> c) s) = c"
  by (induction s) auto

lemma strchr_Some_D:
  assumes "strchr line c = Some k"
  shows "k < length (c_str line)" and "c_str line ! k = c" and "c \<notin> set (take k (c_str line))"
    and "take k (c_str line) = take k line" and "k < length line"
proof -
  let ?s = "c_str line"
  from assms have mem: "c \<in> set ?s" and k: "k = length (takeWhile (\<lambda>x. x \<noteq> c) ?s)"
    by (auto simp: strchr_def split: if_splits)
  show 1: "k < length ?s" unfolding k using takeWhile_neq_mem [OF mem] by simp
  show "?s ! k = c" unfolding k using takeWhile_neq_mem [OF mem] by simp
  have tk: "take k ?s = takeWhile (\<lambda>x. x \<noteq> c) ?s"
    unfolding k by (metis takeWhile_eq_take)
  show "c \<notin> set (take k ?s)" unfolding tk by (auto dest: set_takeWhileD)
  have pre: "?s = take (length ?s) line" unfolding c_str_def by (rule takeWhile_eq_take)
  have "take k ?s = take k (take (length ?s) line)" using pre by simp
  also have "\<dots> = take k line" using 1 by (simp add: min_def)
  finally show "take k ?s = take k line" .
  have "length ?s \<le> length line" unfolding c_str_def by (rule length_takeWhile_le)
  with 1 show "k < length line" by simp
qed

lemma date_key_len_le_4:
  assumes "strchr line c = Some k" and "strncmp line ''date'' k = 0"
  shows "k \<le> 4"
proof (rule ccontr)
  assume "\<not> k \<le> 4"
  then have k5: "5 \<le> k" by simp
  have lt: "k < length (c_str line)" using assms(1) by (rule strchr_Some_D)
  have "take k (c_str line) = take k (c_str ''date'')"
    using assms(2) by (simp add: strncmp_eq_0_iff)
  then have "length (take k (c_str line)) = length (take k (c_str ''date''))" by simp
  then have "k = min k 4" using lt by (simp add: c_str_Cons NUL_def)
  with k5 show False by simp
qed

lemma overlay_Some:
  assumes "10 \<le> length s"
  shows "\<exists>ds. overlay s = Some ds"
  using assms by (cases s rule: overlay.cases) simp_all

subsection \<open>The loops\<close>

lemma read_dir_append:
  "read_dir junk (xs @ ys) st =
     (case read_dir junk xs st of Inl stop \<Rightarrow> Inl stop | Inr st' \<Rightarrow> read_dir junk ys st')"
  by (induction xs arbitrary: st) (simp_all split: sum.split)

lemma read_post_hidden: "hidden (fst ent) \<Longrightarrow> read_post junk ent st = Inr st"
  by (simp add: read_post_def)

lemma read_dir_hidden:
  "\<forall>ent\<in>set ents. hidden (fst ent) \<Longrightarrow> read_dir junk ents st = Inr st"
  by (induction ents) (simp_all add: read_post_hidden)

lemma read_header_takeWhile:
  "read_header name ls st =
     read_header name (takeWhile (\<lambda>line. strcmp line metadata_separator \<noteq> 0) ls) st"
  by (induction ls arbitrary: st) (simp_all split: sum.split)

lemma read_header_header_lines:
  "read_header name (tl (getlines contents)) st = read_header name (header_lines contents) st"
  unfolding header_lines_def by (rule read_header_takeWhile)

lemma read_header_append:
  assumes "\<forall>line\<in>set xs. strcmp line metadata_separator \<noteq> 0"
  shows "read_header name (xs @ ys) st =
     (case read_header name xs st of Inl stop \<Rightarrow> Inl stop | Inr st' \<Rightarrow> read_header name ys st')"
  using assms by (induction xs arbitrary: st) (simp_all split: sum.split)

lemma header_lines_no_separator:
  "line \<in> set (header_lines contents) \<Longrightarrow> strcmp line metadata_separator \<noteq> 0"
  unfolding header_lines_def by (auto dest: set_takeWhileD)

text \<open>A run that stops early has written nothing to the standard output.\<close>

lemma sprintf_stop: "sprintf b s = Inl stop \<Longrightarrow> stop = Undefined Buffer_Overrun"
  by (simp add: sprintf_def split: if_splits)

lemma emit_field_stop: "emit_field line k b = Inl stop \<Longrightarrow> \<exists>u. stop = Undefined u"
  by (auto simp: emit_field_def split: if_splits dest: sprintf_stop)

lemma header_line_stop:
  "header_line name line st = Inl stop \<Longrightarrow> (\<exists>u. stop = Undefined u) \<or> (\<exists>err. stop = Exit 1 [] err)"
  by (auto simp: header_line_def split: option.splits sum.splits if_splits dest: emit_field_stop)

lemma read_header_stop:
  "read_header name ls st = Inl stop \<Longrightarrow> (\<exists>u. stop = Undefined u) \<or> (\<exists>err. stop = Exit 1 [] err)"
  by (induction ls arbitrary: st) (auto split: if_splits sum.splits dest: header_line_stop)

lemma read_post_stop:
  "read_post junk ent st = Inl stop \<Longrightarrow> (\<exists>u. stop = Undefined u) \<or> (\<exists>err. stop = Exit 1 [] err)"
  by (auto simp: read_post_def Let_def split: if_splits sum.splits opened.splits prod.splits
      dest: sprintf_stop read_header_stop)

lemma read_dir_stop:
  "read_dir junk ents st = Inl stop \<Longrightarrow> (\<exists>u. stop = Undefined u) \<or> (\<exists>err. stop = Exit 1 [] err)"
  by (induction ents arbitrary: st) (auto split: sum.splits dest: read_post_stop)

lemma stdout_only_after_read_dir:
  assumes "main junk qs dir = Exit c out err" and "out \<noteq> []"
  shows "c = 0 \<and> (\<exists>ents st. dir = Opens ents \<and> read_dir junk ents \<lparr>buf = [], posts = []\<rparr> = Inr st)"
  using assms by (auto simp: main_def split: opened.splits sum.splits dest: read_dir_stop)

lemma strchr_None: "c \<notin> set line \<Longrightarrow> strchr line c = None"
  by (auto simp: strchr_def c_str_def dest: set_takeWhileD)

lemma header_line_no_colon:
  "CHR '':'' \<notin> set line \<Longrightarrow>
   header_line name line st =
     Inl (Exit 1 [] (c_str name @ '': missing colon in line:\<newline>'' @ [CHR 0x09] @ c_str line))"
  by (simp add: header_line_def strchr_None)

lemma read_post_visible:
  assumes "\<not> hidden name"
      and "sprintf (buf st) (''{\"path\": \"'' @ c_str name @ ''\"'') = Inr b1"
      and "read_header name (header_lines contents) (b1, junk (length (posts st))) = Inl stop"
  shows "read_post junk (name, Opens contents) st = Inl stop"
  using assms by (simp add: read_post_def read_header_header_lines)

subsection \<open>The comparison function and the sort\<close>

lemma cmp_posts_0: "cmp_posts lhs rhs = 0"
  by (simp add: cmp_posts_def)

lemma consistent_cmp_posts: "consistent cmp_posts"
  by (simp add: consistent_def cmp_posts_0)

lemma stable_qsort_all_equal:
  assumes "\<And>a b. cmp a b = 0"
  shows "stable_qsort cmp xs = xs"
proof (induction xs)
  case Nil
  show ?case by (simp add: stable_qsort_def)
next
  case (Cons x xs)
  have "stable_qsort cmp (x # xs) = insert_by cmp x (stable_qsort cmp xs)"
    by (simp add: stable_qsort_def)
  also have "\<dots> = insert_by cmp x xs" by (simp add: Cons.IH)
  also have "\<dots> = x # xs" using assms by (cases xs) simp_all
  finally show ?case .
qed

lemma mset_insert_by: "mset (insert_by cmp x xs) = add_mset x (mset xs)"
  by (induction xs) simp_all

lemma mset_stable_qsort: "mset (stable_qsort cmp xs) = mset xs"
  by (induction xs) (simp_all add: stable_qsort_def mset_insert_by)

lemma set_insert_by: "set (insert_by cmp x xs) = insert x (set xs)"
  by (induction xs) auto

lemma sorted_insert_by:
  assumes "consistent cmp" and "sorted_wrt (\<lambda>a b. cmp a b \<le> 0) xs"
  shows "sorted_wrt (\<lambda>a b. cmp a b \<le> 0) (insert_by cmp x xs)"
  using assms(2)
proof (induction xs)
  case Nil
  show ?case by simp
next
  case (Cons z zs)
  have total: "\<And>a b. \<not> cmp a b \<le> 0 \<Longrightarrow> cmp b a \<le> 0"
    using assms(1) unfolding consistent_def by (metis linorder_le_cases)
  have trans: "\<And>a b c. cmp a b \<le> 0 \<Longrightarrow> cmp b c \<le> 0 \<Longrightarrow> cmp a c \<le> 0"
    using assms(1) unfolding consistent_def by blast
  show ?case
  proof (cases "cmp x z \<le> 0")
    case True
    then show ?thesis using Cons.prems trans by auto
  next
    case False
    then have "cmp z x \<le> 0" by (rule total)
    then show ?thesis using False Cons by (auto simp: set_insert_by)
  qed
qed

lemma sorted_stable_qsort:
  "consistent cmp \<Longrightarrow> sorted_wrt (\<lambda>a b. cmp a b \<le> 0) (stable_qsort cmp xs)"
  by (induction xs) (simp_all add: stable_qsort_def sorted_insert_by)

text \<open>Both functions meet the contract of \<^verbatim>\<open>qsort\<close>.\<close>

lemma stable_qsort_conforms: "qsort_conforms stable_qsort"
  by (simp add: qsort_conforms_def mset_stable_qsort sorted_stable_qsort)

lemma pivoting_qsort_conforms: "qsort_conforms pivoting_qsort"
proof -
  have "mset (xs[0 := xs ! (length xs div 2), length xs div 2 := xs ! 0]) = mset xs"
    if "\<not> length xs < 7" for xs :: "'a list"
    using that by (intro mset_swap) auto
  then show ?thesis
    by (simp add: qsort_conforms_def pivoting_qsort_def mset_stable_qsort sorted_stable_qsort)
qed

lemma qsort_conforms_mset:
  assumes "qsort_conforms qs"
  shows "mset (qs cmp_posts ps) = mset ps"
  using assms consistent_cmp_posts unfolding qsort_conforms_def by blast

lemma qsort_conforms_Nil:
  assumes "qsort_conforms qs"
  shows "qs cmp_posts [] = []"
proof -
  have "mset (qs cmp_posts []) = mset ([] :: Post list)"
    using assms by (rule qsort_conforms_mset)
  then show ?thesis by simp
qed

lemma filter_insert_by:
  assumes "consistent cmp"
  shows "filter (\<lambda>z. cmp z a = 0) (insert_by cmp x xs) =
         (if cmp x a = 0 then x # filter (\<lambda>z. cmp z a = 0) xs else filter (\<lambda>z. cmp z a = 0) xs)"
proof (induction xs)
  case Nil
  show ?case by simp
next
  case (Cons z zs)
  have anti: "\<And>u v. (cmp u v \<le> 0) = (0 \<le> cmp v u)"
    using assms unfolding consistent_def by blast
  have trans: "\<And>u v w. cmp u v \<le> 0 \<Longrightarrow> cmp v w \<le> 0 \<Longrightarrow> cmp u w \<le> 0"
    using assms unfolding consistent_def by blast
  show ?case
  proof (cases "cmp x z \<le> 0")
    case True
    then show ?thesis by simp
  next
    case False
    have "\<not> (cmp x a = 0 \<and> cmp z a = 0)"
    proof
      assume eq: "cmp x a = 0 \<and> cmp z a = 0"
      then have "cmp a z \<le> 0" using anti [of a z] by simp
      with eq have "cmp x z \<le> 0" using trans [of x a z] by simp
      with False show False by simp
    qed
    with False Cons.IH show ?thesis by auto
  qed
qed

lemma stable_qsort_stable: "qsort_stable stable_qsort"
proof -
  have "filter (\<lambda>z. cmp z a = 0) (stable_qsort cmp xs) = filter (\<lambda>z. cmp z a = 0) xs"
    if "consistent cmp" for cmp :: "'a \<Rightarrow> 'a \<Rightarrow> int" and xs a
    by (induction xs) (simp_all add: stable_qsort_def filter_insert_by [OF that])
  then show ?thesis unfolding qsort_stable_def by blast
qed

lemma qsort_stable_cmp_posts:
  assumes "qsort_stable qs"
  shows "qs cmp_posts ps = ps"
proof -
  have "filter (\<lambda>x. cmp_posts x \<lparr>date = 0, json = 0\<rparr> = 0) (qs cmp_posts ps)
        = filter (\<lambda>x. cmp_posts x \<lparr>date = 0, json = 0\<rparr> = 0) ps"
    using assms consistent_cmp_posts unfolding qsort_stable_def by blast
  then show ?thesis by (simp add: cmp_posts_0)
qed

text \<open>
  Claim C1 does not hold of the code. Two files are enumerated, the older one first;
  with a \<^verbatim>\<open>qsort\<close> that keeps equal elements in their order the older file is printed
  first, where the claim has the records in descending order of their dates.
\<close>

theorem sort_ignores_dates:
  "main junk stable_qsort
     (Opens [(''old.md'', Opens ''Old\<newline>date: 2023-12-25\<newline>---\<newline>''),
             (''new.md'', Opens ''New\<newline>date: 2024-03-01\<newline>---\<newline>'')])
   = Exit 0 (''[\<newline>'' @
             ''{\"path\": \"old.md\", \"date\": \"2023-12-25\"}\<newline>'' @
             ''{\"path\": \"new.md\", \"date\": \"2024-03-01\"}\<newline>'' @
             '']\<newline>'') []"
  by (simp add: run_defs stable_qsort_def cmp_posts_def)

subsection \<open>The lines taken as date lines\<close>

text \<open>The test of line 75 compares as many bytes as the key has: it succeeds for the
  keys that are a prefix of \<^verbatim>\<open>date\<close>.\<close>

lemma date_line_iff_prefix:
  assumes "strchr line CHR '':'' = Some key_len"
  shows "date_line line = (take key_len line = take key_len ''date'')"
proof -
  have "take key_len (c_str line) = take key_len line"
    using assms by (rule strchr_Some_D)
  moreover have "c_str ''date'' = ''date''" by (simp add: c_str_Cons NUL_def)
  ultimately show ?thesis
    by (simp add: date_line_def assms strncmp_eq_0_iff)
qed

text \<open>
  Claim C4 does not hold of the code. The key \<^verbatim>\<open>dat\<close> is a proper prefix of
  \<^verbatim>\<open>date\<close>; \<^verbatim>\<open>strncmp\<close> compares its three bytes only, the line is taken as a date
  line and the run ends with the malformed-date diagnostic. So it does for the empty
  key, of which no byte is compared.
\<close>

theorem prefix_of_date_taken_as_date:
  "main junk qs (Opens [(''a.md'', Opens ''Title\<newline>dat: x\<newline>---\<newline>'')])
     = Exit 1 [] (''a.md: malformed date line:\<newline>'' @ [CHR 0x09] @ ''dat: x\<newline>'') \<and>
   main junk qs (Opens [(''b.md'', Opens ''Title\<newline>: x\<newline>---\<newline>'')])
     = Exit 1 [] (''b.md: malformed date line:\<newline>'' @ [CHR 0x09] @ '': x\<newline>'')"
  by (simp add: run_defs)

text \<open>
  Claim C3, as amended. A header line that is taken as a date line, and whose field has
  been printed, ends the run with the malformed-date diagnostic, which names the file
  and the line, if and only if its length as \<^verbatim>\<open>getline\<close> returned it, the newline
  counted, differs from 17, the length of \<^verbatim>\<open>date: YYYY-MM-DD\<close> and a newline. A line
  of that length is accepted whatever its bytes are.
\<close>

theorem malformed_date_iff_length_not_17:
  assumes "date_line line"
      and "strchr line CHR '':'' = Some key_len"
      and "emit_field line key_len b = Inr b'"
  shows "(header_line name line (b, k) =
            Inl (Exit 1 [] (c_str name @ '': malformed date line:\<newline>'' @ [CHR 0x09] @ c_str line)))
           = (length line \<noteq> 17) \<and>
         (length line = 17 \<longrightarrow> (\<exists>k'. header_line name line (b, k) = Inr (b', k')))"
proof -
  have cmp: "strncmp line ''date'' key_len = 0"
    using assms(1,2) by (simp add: date_line_def)
  have len: "date_line_len = 17" by (simp add: date_line_len_def c_str_Cons NUL_def)
  show ?thesis
  proof (cases "length line = 17")
    case False
    then show ?thesis by (simp add: header_line_def assms(2,3) cmp len)
  next
    case True
    have "key_len \<le> 4" using assms(2) cmp by (rule date_key_len_le_4)
    with True have "10 \<le> length (drop (key_len + 2) line)" by simp
    then obtain ds where "overlay (drop (key_len + 2) line) = Some ds"
      using overlay_Some by blast
    with True show ?thesis by (simp add: header_line_def assms(2,3) cmp len)
  qed
qed

theorem malformed_date_witness:
  "date_line ''date: 2024-13-99\<newline>'' \<and>
   (\<exists>k'. header_line ''a.md'' ''date: 2024-13-99\<newline>'' ([], 0) = Inr ('', \"date\": \"2024-13-99\"'', k')) \<and>
   date_line ''date: 2024-1-5\<newline>'' \<and>
   header_line ''a.md'' ''date: 2024-1-5\<newline>'' ([], 0)
     = Inl (Exit 1 [] (''a.md: malformed date line:\<newline>'' @ [CHR 0x09] @ ''date: 2024-1-5\<newline>''))"
proof -
  have a1: "date_line ''date: 2024-13-99\<newline>''"
    by (simp add: date_line_def run_defs)
  have a2: "strchr ''date: 2024-13-99\<newline>'' CHR '':'' = Some 4"
    by (simp add: run_defs)
  have a3: "emit_field ''date: 2024-13-99\<newline>'' 4 [] = Inr '', \"date\": \"2024-13-99\"''"
    by (simp add: run_defs)
  have b1: "date_line ''date: 2024-1-5\<newline>''"
    by (simp add: date_line_def run_defs)
  have b2: "strchr ''date: 2024-1-5\<newline>'' CHR '':'' = Some 4"
    by (simp add: run_defs)
  have b3: "emit_field ''date: 2024-1-5\<newline>'' 4 [] = Inr '', \"date\": \"2024-1-5\"''"
    by (simp add: run_defs)
  show ?thesis
    using a1 b1 malformed_date_iff_length_not_17 [OF a1 a2 a3, of "''a.md''" 0]
      malformed_date_iff_length_not_17 [OF b1 b2 b3, of "''a.md''" 0]
    by (simp add: run_defs)
qed

text \<open>
  Claim C3, as stated, fails: the length that is accepted is 17, not 18. The line
  \<^verbatim>\<open>date: 2024-01-15\<close> with its newline has 17 bytes and the run succeeds; a date line
  of 18 bytes ends the run with the malformed-date diagnostic.
\<close>

theorem date_line_length_counterexample:
  "length ''date: 2024-01-15\<newline>'' = 17 \<and>
   main (\<lambda>n. 0) stable_qsort (Opens [(''a.md'', Opens ''Title\<newline>date: 2024-01-15\<newline>---\<newline>'')])
     = Exit 0 (''[\<newline>'' @ ''{\"path\": \"a.md\", \"date\": \"2024-01-15\"}\<newline>'' @ '']\<newline>'') [] \<and>
   length ''date: 2024-01-150\<newline>'' = 18 \<and>
   main (\<lambda>n. 0) stable_qsort (Opens [(''a.md'', Opens ''Title\<newline>date: 2024-01-150\<newline>---\<newline>'')])
     = Exit 1 [] (''a.md: malformed date line:\<newline>'' @ [CHR 0x09] @ ''date: 2024-01-150\<newline>'')"
  by (simp add: run_defs stable_qsort_def cmp_posts_def)

lemma header_line_date:
  assumes "header_line name line (b, k) = Inr (b', k')"
  shows "(date_line line \<longrightarrow> length line = 17 \<and> date_of_line line = Some k') \<and>
         (\<not> date_line line \<longrightarrow> k' = k)"
proof -
  have len: "date_line_len = 17" by (simp add: date_line_len_def c_str_Cons NUL_def)
  show ?thesis
    using assms
    by (auto simp: header_line_def date_line_def date_of_line_def len
        split: option.splits sum.splits if_splits)
qed

lemma read_header_dates:
  assumes "read_header name ls (b, k) = Inr (b', k')"
      and "\<forall>l\<in>set ls. strcmp l metadata_separator \<noteq> 0"
  shows "(\<forall>l\<in>set (filter date_line ls). length l = 17) \<and>
         (case rev (filter date_line ls) of
            [] \<Rightarrow> k' = k
          | l # older \<Rightarrow> date_of_line l = Some k')"
  using assms
proof (induction ls arbitrary: b k)
  case Nil
  then show ?case by simp
next
  case (Cons l ls)
  from Cons.prems obtain b1 k1 where
    step: "header_line name l (b, k) = Inr (b1, k1)" and
    rest: "read_header name ls (b1, k1) = Inr (b', k')"
    by (auto split: sum.splits)
  have ih: "(\<forall>l\<in>set (filter date_line ls). length l = 17) \<and>
         (case rev (filter date_line ls) of [] \<Rightarrow> k' = k1 | l # older \<Rightarrow> date_of_line l = Some k')"
    using Cons.IH [OF rest] Cons.prems(2) by simp
  note hd = header_line_date [OF step]
  have all17: "\<forall>x\<in>set (filter date_line (l # ls)). length x = 17"
    using hd ih by auto
  have last: "case rev (filter date_line (l # ls)) of [] \<Rightarrow> k' = k | x # older \<Rightarrow> date_of_line x = Some k'"
  proof (cases "rev (filter date_line ls)")
    case Nil
    then have none: "filter date_line ls = []" by simp
    with ih Nil have "k' = k1" by simp
    with hd none show ?thesis by (cases "date_line l") simp_all
  next
    case (Cons l' older)
    with ih have "date_of_line l' = Some k'" by simp
    with Cons show ?thesis by (cases "date_line l") simp_all
  qed
  from all17 last show ?case by blast
qed

text \<open>
  Claim C10. When the loop body has read a file without stopping, every line of its
  header that was taken as a date line has the length 17, so one date line of another
  length stops the run whatever the other date lines are, and the date of the record
  is the key of the last of these lines (what \<^verbatim>\<open>post.date\<close> held before, when there
  is none).
\<close>

theorem last_date_line_wins:
  assumes "read_post junk (name, Opens contents) st = Inr st'" and "\<not> hidden name"
  shows "\<exists>p. posts st' = posts st @ [p] \<and>
           (\<forall>l\<in>set (filter date_line (header_lines contents)). length l = 17) \<and>
           (case rev (filter date_line (header_lines contents)) of
              [] \<Rightarrow> date p = junk (length (posts st))
            | l # older \<Rightarrow> date_of_line l = Some (date p))"
proof -
  from assms obtain b1 b2 k where
    hdr: "read_header name (header_lines contents) (b1, junk (length (posts st))) = Inr (b2, k)" and
    st': "posts st' = posts st @ [\<lparr>date = k, json = length (buf st)\<rparr>]"
    by (auto simp: read_post_def read_header_header_lines Let_def
        split: sum.splits if_splits prod.splits)
  have "\<forall>l\<in>set (header_lines contents). strcmp l metadata_separator \<noteq> 0"
    using header_lines_no_separator by blast
  from read_header_dates [OF hdr this] st' show ?thesis by (auto split: list.splits)
qed

theorem last_date_line_witness:
  "read_post (\<lambda>n. 0)
     (''a.md'', Opens ''Title\<newline>date: 2023-01-01\<newline>tags: x\<newline>date: 2024-05-06\<newline>---\<newline>'')
     \<lparr>buf = [], posts = []\<rparr>
   = Inr \<lparr>buf = ''{\"path\": \"a.md\", \"date\": \"2023-01-01\", \"tags\": \"x\", \"date\": \"2024-05-06\"}'' @ [NUL],
          posts = [\<lparr>date = 0x3230323430353036, json = 0\<rparr>]\<rparr> \<and>
   filter date_line (header_lines ''Title\<newline>date: 2023-01-01\<newline>tags: x\<newline>date: 2024-05-06\<newline>---\<newline>'')
     = [''date: 2023-01-01\<newline>'', ''date: 2024-05-06\<newline>''] \<and>
   date_of_line ''date: 2024-05-06\<newline>'' = Some 0x3230323430353036"
proof -
  let ?contents = "''Title\<newline>date: 2023-01-01\<newline>tags: x\<newline>date: 2024-05-06\<newline>---\<newline>''"
  let ?st' = "\<lparr>buf = ''{\"path\": \"a.md\", \"date\": \"2023-01-01\", \"tags\": \"x\", \"date\": \"2024-05-06\"}'' @ [NUL],
          posts = [\<lparr>date = 0x3230323430353036, json = 0\<rparr>]\<rparr>"
  have h1: "read_post (\<lambda>n. 0) (''a.md'', Opens ?contents) \<lparr>buf = [], posts = []\<rparr> = Inr ?st'"
    by (simp add: run_defs)
  have h2: "\<not> hidden ''a.md''"
    by (simp add: run_defs)
  have lines: "filter date_line (header_lines ?contents) = [''date: 2023-01-01\<newline>'', ''date: 2024-05-06\<newline>'']"
    by (simp add: header_lines_def date_line_def run_defs)
  show ?thesis
    using h1 lines last_date_line_wins [OF h1 h2] by simp
qed

subsection \<open>The key of a date\<close>

lemma or_below_eq_add:
  fixes x t :: nat
  assumes "t < 2 ^ n"
  shows "push_bit n x OR t = x * 2 ^ n + t"
proof -
  have "take_bit n t = t" using assms by (rule take_bit_nat_eq_self)
  then have nobit: "\<And>k. n \<le> k \<Longrightarrow> \<not> bit t k"
    by (metis bit_take_bit_iff not_le)
  have "push_bit n x + t = push_bit n x OR t"
    by (rule disjunctive_add) (auto simp: bit_push_bit_iff dest: nobit)
  then show ?thesis by (simp add: push_bit_eq_mult)
qed

lemma or_chain_nat:
  fixes a0 a1 a2 a3 a4 a5 a6 a7 :: nat
  assumes "a1 < 256" "a2 < 256" "a3 < 256" "a4 < 256" "a5 < 256" "a6 < 256" "a7 < 256"
  shows "push_bit 56 a0 OR push_bit 48 a1 OR push_bit 40 a2 OR push_bit 32 a3 OR
         push_bit 24 a4 OR push_bit 16 a5 OR push_bit 8 a6 OR a7
         = a0 * 2 ^ 56 + a1 * 2 ^ 48 + a2 * 2 ^ 40 + a3 * 2 ^ 32 + a4 * 2 ^ 24 + a5 * 2 ^ 16 + a6 * 2 ^ 8 + a7"
proof -
  have t6: "push_bit 8 a6 OR a7 = a6 * 2 ^ 8 + a7"
    using assms by (intro or_below_eq_add) simp
  have t5: "push_bit 16 a5 OR (a6 * 2 ^ 8 + a7) = a5 * 2 ^ 16 + (a6 * 2 ^ 8 + a7)"
    using assms by (intro or_below_eq_add) simp
  have t4: "push_bit 24 a4 OR (a5 * 2 ^ 16 + (a6 * 2 ^ 8 + a7)) = a4 * 2 ^ 24 + (a5 * 2 ^ 16 + (a6 * 2 ^ 8 + a7))"
    using assms by (intro or_below_eq_add) simp
  have t3: "push_bit 32 a3 OR (a4 * 2 ^ 24 + (a5 * 2 ^ 16 + (a6 * 2 ^ 8 + a7)))
            = a3 * 2 ^ 32 + (a4 * 2 ^ 24 + (a5 * 2 ^ 16 + (a6 * 2 ^ 8 + a7)))"
    using assms by (intro or_below_eq_add) simp
  have t2: "push_bit 40 a2 OR (a3 * 2 ^ 32 + (a4 * 2 ^ 24 + (a5 * 2 ^ 16 + (a6 * 2 ^ 8 + a7))))
            = a2 * 2 ^ 40 + (a3 * 2 ^ 32 + (a4 * 2 ^ 24 + (a5 * 2 ^ 16 + (a6 * 2 ^ 8 + a7))))"
    using assms by (intro or_below_eq_add) simp
  have t1: "push_bit 48 a1 OR (a2 * 2 ^ 40 + (a3 * 2 ^ 32 + (a4 * 2 ^ 24 + (a5 * 2 ^ 16 + (a6 * 2 ^ 8 + a7)))))
            = a1 * 2 ^ 48 + (a2 * 2 ^ 40 + (a3 * 2 ^ 32 + (a4 * 2 ^ 24 + (a5 * 2 ^ 16 + (a6 * 2 ^ 8 + a7)))))"
    using assms by (intro or_below_eq_add) simp
  have t0: "push_bit 56 a0 OR (a1 * 2 ^ 48 + (a2 * 2 ^ 40 + (a3 * 2 ^ 32 + (a4 * 2 ^ 24 + (a5 * 2 ^ 16 + (a6 * 2 ^ 8 + a7))))))
            = a0 * 2 ^ 56 + (a1 * 2 ^ 48 + (a2 * 2 ^ 40 + (a3 * 2 ^ 32 + (a4 * 2 ^ 24 + (a5 * 2 ^ 16 + (a6 * 2 ^ 8 + a7))))))"
    using assms by (intro or_below_eq_add) simp
  show ?thesis
    by (simp only: t6 t5 t4 t3 t2 t1 t0 add.assoc)
qed

lemma lex_less:
  fixes a r a' r' P :: nat
  assumes "r < P" and "r' < P"
  shows "(a * P + r < a' * P + r') = (a < a' \<or> a = a' \<and> r < r')"
proof -
  have up: "\<And>u v s t :: nat. u < v \<Longrightarrow> s < P \<Longrightarrow> u * P + s < v * P + t"
  proof -
    fix u v s t :: nat
    assume "u < v" and s: "s < P"
    then have "Suc u * P \<le> v * P" by (intro mult_le_mono1) simp
    then have "u * P + P \<le> v * P" by simp
    with s show "u * P + s < v * P + t" by linarith
  qed
  show ?thesis
  proof (cases a a' rule: linorder_cases)
    case less
    with up [OF less assms(1)] show ?thesis by simp
  next
    case equal
    then show ?thesis by simp
  next
    case greater
    from up [OF greater assms(2), of r] greater show ?thesis by simp
  qed
qed

lemma lex_eq:
  fixes a r a' r' P :: nat
  assumes "r < P" and "r' < P"
  shows "(a * P + r = a' * P + r') = (a = a' \<and> r = r')"
  using lex_less [OF assms, of a a'] lex_less [OF assms(2,1), of a' a] by auto

text \<open>One more digit: bytes in base 256 and digit values in base 10 are ordered alike.\<close>

lemma digit_step:
  fixes h h' g g' a b :: nat
  assumes "(h < h') = (g < g')" and "(h = h') = (g = g')"
      and "48 \<le> a" "a \<le> 57" "48 \<le> b" "b \<le> 57"
  shows "(h * 256 + a < h' * 256 + b) = (g * 10 + (a - 48) < g' * 10 + (b - 48))"
    and "(h * 256 + a = h' * 256 + b) = (g * 10 + (a - 48) = g' * 10 + (b - 48))"
proof -
  have big: "a < 256" "b < 256" using assms by simp_all
  have small: "a - 48 < 10" "b - 48 < 10" using assms by simp_all
  have lt: "(a - 48 < b - 48) = (a < b)" and eq: "(a - 48 = b - 48) = (a = b)"
    using assms by auto
  show "(h * 256 + a < h' * 256 + b) = (g * 10 + (a - 48) < g' * 10 + (b - 48))"
    unfolding lex_less [OF big] lex_less [OF small] lt eq assms(1,2) ..
  show "(h * 256 + a = h' * 256 + b) = (g * 10 + (a - 48) = g' * 10 + (b - 48))"
    unfolding lex_eq [OF big] lex_eq [OF small] eq assms(2) ..
qed

lemma digit_base:
  fixes a b :: nat
  assumes "48 \<le> a" "48 \<le> b"
  shows "(a < b) = (a - 48 < b - 48)" and "(a = b) = (a - 48 = b - 48)"
  using assms by auto

lemma digits2:
  fixes a0 a1 b0 b1 :: nat
  assumes "48 \<le> a0" "a0 \<le> 57" "48 \<le> a1" "a1 \<le> 57" "48 \<le> b0" "b0 \<le> 57" "48 \<le> b1" "b1 \<le> 57"
  shows "(a0 * 256 + a1 < b0 * 256 + b1) = ((a0 - 48) * 10 + (a1 - 48) < (b0 - 48) * 10 + (b1 - 48))"
    and "(a0 * 256 + a1 = b0 * 256 + b1) = ((a0 - 48) * 10 + (a1 - 48) = (b0 - 48) * 10 + (b1 - 48))"
  using digit_step [OF digit_base [OF assms(1,5)] assms(3,4,7,8)] by blast+

lemma digits4:
  fixes a0 a1 a2 a3 b0 b1 b2 b3 :: nat
  assumes "48 \<le> a0" "a0 \<le> 57" "48 \<le> a1" "a1 \<le> 57" "48 \<le> a2" "a2 \<le> 57" "48 \<le> a3" "a3 \<le> 57"
      and "48 \<le> b0" "b0 \<le> 57" "48 \<le> b1" "b1 \<le> 57" "48 \<le> b2" "b2 \<le> 57" "48 \<le> b3" "b3 \<le> 57"
  shows "(((a0 * 256 + a1) * 256 + a2) * 256 + a3 < ((b0 * 256 + b1) * 256 + b2) * 256 + b3)
         = ((((a0 - 48) * 10 + (a1 - 48)) * 10 + (a2 - 48)) * 10 + (a3 - 48)
              < (((b0 - 48) * 10 + (b1 - 48)) * 10 + (b2 - 48)) * 10 + (b3 - 48))"
    and "(((a0 * 256 + a1) * 256 + a2) * 256 + a3 = ((b0 * 256 + b1) * 256 + b2) * 256 + b3)
         = ((((a0 - 48) * 10 + (a1 - 48)) * 10 + (a2 - 48)) * 10 + (a3 - 48)
              = (((b0 - 48) * 10 + (b1 - 48)) * 10 + (b2 - 48)) * 10 + (b3 - 48))"
proof -
  note s1 = digits2 [OF assms(1,2,3,4,9,10,11,12)]
  note s2 = digit_step [OF s1 assms(5,6,13,14)]
  note s3 = digit_step [OF s2 assms(7,8,15,16)]
  from s3 show "(((a0 * 256 + a1) * 256 + a2) * 256 + a3 < ((b0 * 256 + b1) * 256 + b2) * 256 + b3)
         = ((((a0 - 48) * 10 + (a1 - 48)) * 10 + (a2 - 48)) * 10 + (a3 - 48)
              < (((b0 - 48) * 10 + (b1 - 48)) * 10 + (b2 - 48)) * 10 + (b3 - 48))" by blast
  from s3 show "(((a0 * 256 + a1) * 256 + a2) * 256 + a3 = ((b0 * 256 + b1) * 256 + b2) * 256 + b3)
         = ((((a0 - 48) * 10 + (a1 - 48)) * 10 + (a2 - 48)) * 10 + (a3 - 48)
              = (((b0 - 48) * 10 + (b1 - 48)) * 10 + (b2 - 48)) * 10 + (b3 - 48))" by blast
qed

text \<open>Year, month and day, each below its power of two.\<close>

lemma ymd_order:
  fixes yr mo dy yr' mo' dy' :: nat
  assumes "mo < 2 ^ 16" "dy < 2 ^ 16" "mo' < 2 ^ 16" "dy' < 2 ^ 16"
  shows "(yr * 2 ^ 32 + (mo * 2 ^ 16 + dy) < yr' * 2 ^ 32 + (mo' * 2 ^ 16 + dy'))
         = (yr < yr' \<or> yr = yr' \<and> (mo < mo' \<or> mo = mo' \<and> dy < dy'))"
proof -
  have low: "mo * 2 ^ 16 + dy < 2 ^ 32" "mo' * 2 ^ 16 + dy' < 2 ^ 32"
    using assms by simp_all
  show ?thesis
    unfolding lex_less [OF low] lex_less [OF assms(2,4)] ..
qed

lemma list10:
  assumes "length s = 10"
  obtains s0 s1 s2 s3 s4 s5 s6 s7 s8 s9 where "s = [s0, s1, s2, s3, s4, s5, s6, s7, s8, s9]"
  using assms by (auto simp: length_Suc_conv eval_nat_numeral)

lemma strchr_date:
  "strchr (CHR ''d'' # CHR ''a'' # CHR ''t'' # CHR ''e'' # CHR '':'' # CHR '' '' # r) CHR '':'' = Some 4"
  by (simp add: strchr_def c_str_Cons NUL_def)

lemma date_line_date:
  "date_line (CHR ''d'' # CHR ''a'' # CHR ''t'' # CHR ''e'' # CHR '':'' # CHR '' '' # r)"
  by (simp add: date_line_def strchr_date strncmp_eq_0_iff c_str_Cons NUL_def)

lemma date_of_line_date:
  "date_of_line (''date: '' @ [s0, s1, s2, s3, s4, s5, s6, s7, s8, s9] @ r)
     = Some (pack \<lparr>y = [s0, s1, s2, s3], hyphen1 = s4, m = [s5, s6], hyphen2 = s7, d = [s8, s9]\<rparr>)"
  by (simp add: date_of_line_def strchr_date)

lemma header_line_date_key:
  assumes "header_line name (''date: '' @ [s0, s1, s2, s3, s4, s5, s6, s7, s8, s9] @ r) (b, j) = Inr (c, k)"
  shows "k = pack \<lparr>y = [s0, s1, s2, s3], hyphen1 = s4, m = [s5, s6], hyphen2 = s7, d = [s8, s9]\<rparr>"
  using header_line_date [OF assms] date_line_date [of "[s0, s1, s2, s3, s4, s5, s6, s7, s8, s9] @ r"]
    date_of_line_date [of s0 s1 s2 s3 s4 s5 s6 s7 s8 s9 r] by simp

lemma of_char_word: "(of_char c :: 64 word) = of_nat (of_char c)"
  by (simp add: of_nat_of_char)

lemma pack_of_nat:
  "pack \<lparr>y = [c0, c1, c2, c3], hyphen1 = h1, m = [c4, c5], hyphen2 = h2, d = [c6, c7]\<rparr>
     = of_nat (bytes_nat c0 c1 c2 c3 c4 c5 c6 c7)"
proof -
  let ?a0 = "of_char c0 :: nat" and ?a1 = "of_char c1 :: nat" and ?a2 = "of_char c2 :: nat"
    and ?a3 = "of_char c3 :: nat" and ?a4 = "of_char c4 :: nat" and ?a5 = "of_char c5 :: nat"
    and ?a6 = "of_char c6 :: nat" and ?a7 = "of_char c7 :: nat"
  have "pack \<lparr>y = [c0, c1, c2, c3], hyphen1 = h1, m = [c4, c5], hyphen2 = h2, d = [c6, c7]\<rparr>
        = of_nat (push_bit 56 ?a0 OR push_bit 48 ?a1 OR push_bit 40 ?a2 OR push_bit 32 ?a3 OR
                  push_bit 24 ?a4 OR push_bit 16 ?a5 OR push_bit 8 ?a6 OR ?a7)"
    by (simp add: pack_def of_char_word of_nat_or_eq of_nat_push_bit)
  also have "push_bit 56 ?a0 OR push_bit 48 ?a1 OR push_bit 40 ?a2 OR push_bit 32 ?a3 OR
                  push_bit 24 ?a4 OR push_bit 16 ?a5 OR push_bit 8 ?a6 OR ?a7
             = ?a0 * 2 ^ 56 + ?a1 * 2 ^ 48 + ?a2 * 2 ^ 40 + ?a3 * 2 ^ 32 + ?a4 * 2 ^ 24 + ?a5 * 2 ^ 16 + ?a6 * 2 ^ 8 + ?a7"
    by (rule or_chain_nat) simp_all
  also have "?a0 * 2 ^ 56 + ?a1 * 2 ^ 48 + ?a2 * 2 ^ 40 + ?a3 * 2 ^ 32 + ?a4 * 2 ^ 24 + ?a5 * 2 ^ 16 + ?a6 * 2 ^ 8 + ?a7 = bytes_nat c0 c1 c2 c3 c4 c5 c6 c7"
    by (simp add: bytes_nat_def)
  finally show ?thesis .
qed

lemma big_endian_of_nat:
  "big_endian [c0, c1, c2, c3, c4, c5, c6, c7] = of_nat (bytes_nat c0 c1 c2 c3 c4 c5 c6 c7)"
  by (simp add: big_endian_def bytes_nat_def of_char_word)

lemma bytes_nat_bound:
  assumes "(of_char c0 :: nat) < 128"
  shows "bytes_nat c0 c1 c2 c3 c4 c5 c6 c7 < 2 ^ 63"
proof -
  have gen: "\<And>a0 a1 a2 a3 a4 a5 a6 a7 :: nat.
      a0 < 128 \<Longrightarrow> a1 < 256 \<Longrightarrow> a2 < 256 \<Longrightarrow> a3 < 256 \<Longrightarrow>
      a4 < 256 \<Longrightarrow> a5 < 256 \<Longrightarrow> a6 < 256 \<Longrightarrow> a7 < 256 \<Longrightarrow>
      (((a0 * 256 + a1) * 256 + a2) * 256 + a3) * 2 ^ 32 +
        ((a4 * 256 + a5) * 2 ^ 16 + (a6 * 256 + a7)) < 2 ^ 63"
    by simp
  show ?thesis unfolding bytes_nat_def by (rule gen) (simp_all add: assms)
qed

lemma sint_of_nat_64:
  assumes "n < 2 ^ 63"
  shows "sint (of_nat n :: 64 word) = int n"
proof -
  have "n < 2 ^ 64" using assms by simp
  then have "unat (of_nat n :: 64 word) = n" by (simp add: unat_of_nat)
  then have u: "uint (of_nat n :: 64 word) = int n" by (simp add: uint_nat)
  have "sint (of_nat n :: 64 word) = signed_take_bit 63 (uint (of_nat n :: 64 word))"
    by (simp add: sint_uint)
  also have "\<dots> = int n"
    unfolding u using assms by (intro signed_take_bit_int_eq_self) simp_all
  finally show ?thesis .
qed

lemma date_key_of_line:
  assumes hs: "date_of_line (''date: '' @ s @ ''\<newline>'') = Some ks"
      and ht: "date_of_line (''date: '' @ t @ ''\<newline>'') = Some kt"
      and ds: "date_digits s" and dt: "date_digits t"
  shows "ks = big_endian (ymd s)" and "(sint ks < sint kt) = calendar_less s t"
proof -
  from ds obtain s0 s1 s2 s3 s4 s5 s6 s7 s8 s9 where s: "s = [s0, s1, s2, s3, s4, s5, s6, s7, s8, s9]"
    unfolding date_digits_def by (elim conjE list10)
  from dt obtain t0 t1 t2 t3 t4 t5 t6 t7 t8 t9 where t: "t = [t0, t1, t2, t3, t4, t5, t6, t7, t8, t9]"
    unfolding date_digits_def by (elim conjE list10)
  have ymd_s: "ymd s = [s0, s1, s2, s3, s5, s6, s8, s9]" by (simp add: ymd_def s)
  have ymd_t: "ymd t = [t0, t1, t2, t3, t5, t6, t8, t9]" by (simp add: ymd_def t)
  have dig_s: "digit s0" "digit s1" "digit s2" "digit s3" "digit s5" "digit s6" "digit s8" "digit s9"
    using ds by (simp_all add: date_digits_def ymd_s)
  have dig_t: "digit t0" "digit t1" "digit t2" "digit t3" "digit t5" "digit t6" "digit t8" "digit t9"
    using dt by (simp_all add: date_digits_def ymd_t)
  have ks: "ks = of_nat (bytes_nat s0 s1 s2 s3 s5 s6 s8 s9)"
    using hs [unfolded s date_of_line_date] by (simp only: pack_of_nat option.inject)
  have kt: "kt = of_nat (bytes_nat t0 t1 t2 t3 t5 t6 t8 t9)"
    using ht [unfolded t date_of_line_date] by (simp only: pack_of_nat option.inject)
  show "ks = big_endian (ymd s)"
    unfolding ks ymd_s by (simp only: big_endian_of_nat)
  have "(of_char s0 :: nat) < 128" "(of_char t0 :: nat) < 128"
    using dig_s(1) dig_t(1) by (simp_all add: digit_def)
  then have sint_s: "sint ks = int (bytes_nat s0 s1 s2 s3 s5 s6 s8 s9)"
    and sint_t: "sint kt = int (bytes_nat t0 t1 t2 t3 t5 t6 t8 t9)"
    unfolding ks kt by (simp_all only: sint_of_nat_64 bytes_nat_bound)
  let ?a = "\<lambda>c. (of_char c :: nat)"
  have lo: "?a s5 * 256 + ?a s6 < 2 ^ 16" "?a s8 * 256 + ?a s9 < 2 ^ 16"
    "?a t5 * 256 + ?a t6 < 2 ^ 16" "?a t8 * 256 + ?a t9 < 2 ^ 16"
    using dig_s dig_t by (simp_all add: digit_def)
  have d: "48 \<le> ?a s0" "?a s0 \<le> 57" "48 \<le> ?a s1" "?a s1 \<le> 57" "48 \<le> ?a s2" "?a s2 \<le> 57"
    "48 \<le> ?a s3" "?a s3 \<le> 57" "48 \<le> ?a s5" "?a s5 \<le> 57" "48 \<le> ?a s6" "?a s6 \<le> 57"
    "48 \<le> ?a s8" "?a s8 \<le> 57" "48 \<le> ?a s9" "?a s9 \<le> 57"
    using dig_s by (simp_all add: digit_def)
  have e: "48 \<le> ?a t0" "?a t0 \<le> 57" "48 \<le> ?a t1" "?a t1 \<le> 57" "48 \<le> ?a t2" "?a t2 \<le> 57"
    "48 \<le> ?a t3" "?a t3 \<le> 57" "48 \<le> ?a t5" "?a t5 \<le> 57" "48 \<le> ?a t6" "?a t6 \<le> 57"
    "48 \<le> ?a t8" "?a t8 \<le> 57" "48 \<le> ?a t9" "?a t9 \<le> 57"
    using dig_t by (simp_all add: digit_def)
  note yr = digits4 [OF d(1-8) e(1-8)]
  note mo = digits2 [OF d(9-12) e(9-12)]
  note dy = digits2 [OF d(13-16) e(13-16)]
  have cal: "calendar_less s t =
    ((((?a s0 - 48) * 10 + (?a s1 - 48)) * 10 + (?a s2 - 48)) * 10 + (?a s3 - 48)
        < (((?a t0 - 48) * 10 + (?a t1 - 48)) * 10 + (?a t2 - 48)) * 10 + (?a t3 - 48) \<or>
     (((?a s0 - 48) * 10 + (?a s1 - 48)) * 10 + (?a s2 - 48)) * 10 + (?a s3 - 48)
        = (((?a t0 - 48) * 10 + (?a t1 - 48)) * 10 + (?a t2 - 48)) * 10 + (?a t3 - 48) \<and>
     ((?a s5 - 48) * 10 + (?a s6 - 48) < (?a t5 - 48) * 10 + (?a t6 - 48) \<or>
      (?a s5 - 48) * 10 + (?a s6 - 48) = (?a t5 - 48) * 10 + (?a t6 - 48) \<and>
      (?a s8 - 48) * 10 + (?a s9 - 48) < (?a t8 - 48) * 10 + (?a t9 - 48)))"
    by (simp add: calendar_less_def number_def s t mult.commute)
  have "(sint ks < sint kt) = (bytes_nat s0 s1 s2 s3 s5 s6 s8 s9 < bytes_nat t0 t1 t2 t3 t5 t6 t8 t9)"
    unfolding sint_s sint_t by simp
  also have "\<dots> = calendar_less s t"
    unfolding bytes_nat_def ymd_order [OF lo] yr mo dy cal ..
  finally show "(sint ks < sint kt) = calendar_less s t" .
qed

lemma read_post_last_date:
  assumes "read_post junk (name, Opens contents) st = Inr st'" and "\<not> hidden name"
      and "last_date_line contents = Some line"
  shows "\<exists>p. posts st' = posts st @ [p] \<and> date_of_line line = Some (date p)"
proof -
  from assms(1,2) obtain b1 b2 k where
    hdr: "read_header name (header_lines contents) (b1, junk (length (posts st))) = Inr (b2, k)" and
    st': "posts st' = posts st @ [\<lparr>date = k, json = length (buf st)\<rparr>]"
    by (auto simp: read_post_def read_header_header_lines Let_def
        split: sum.splits if_splits prod.splits)
  have "\<forall>l\<in>set (header_lines contents). strcmp l metadata_separator \<noteq> 0"
    using header_lines_no_separator by blast
  from read_header_dates [OF hdr this] assms(3) st' show ?thesis
    by (auto simp: last_date_line_def split: list.splits)
qed

text \<open>
  Claim C2, as amended. For a file that is read without error and whose last header
  line taken as a date line is \<^verbatim>\<open>date: \<close>, a date \<^verbatim>\<open>YYYY-MM-DD\<close> of digits and a newline,
  the key stored for the file is the digits of year, month and day read as a
  big-endian integer, and for two such files the signed order of the keys is the
  calendar order of the dates. So the key of a file whose last date line is
  \<^verbatim>\<open>date: 2024-01-15\<close> is the eight bytes \<^verbatim>\<open>20240115\<close> read as a big-endian integer; it is
  greater than the key of \<^verbatim>\<open>2023-12-31\<close> and less than the key of \<^verbatim>\<open>2024-02-01\<close>.
\<close>

theorem date_key_order:
  assumes "read_post junk (na, Opens fa) sa = Inr sa'" and "\<not> hidden na"
      and "last_date_line fa = Some (''date: '' @ s @ ''\<newline>'')" and "date_digits s"
      and "read_post junk' (nb, Opens fb) sb = Inr sb'" and "\<not> hidden nb"
      and "last_date_line fb = Some (''date: '' @ t @ ''\<newline>'')" and "date_digits t"
  shows "\<exists>p q. posts sa' = posts sa @ [p] \<and> posts sb' = posts sb @ [q] \<and>
           date p = big_endian (ymd s) \<and> date q = big_endian (ymd t) \<and>
           (sint (date p) < sint (date q)) = calendar_less s t \<and>
           (s = ''2024-01-15'' \<longrightarrow> date p = big_endian ''20240115'') \<and>
           (s = ''2023-12-31'' \<and> t = ''2024-01-15'' \<longrightarrow> sint (date p) < sint (date q)) \<and>
           (s = ''2024-01-15'' \<and> t = ''2024-02-01'' \<longrightarrow> sint (date p) < sint (date q))"
proof -
  from read_post_last_date [OF assms(1,2,3)] obtain p where
    p: "posts sa' = posts sa @ [p]" "date_of_line (''date: '' @ s @ ''\<newline>'') = Some (date p)"
    by blast
  from read_post_last_date [OF assms(5,6,7)] obtain q where
    q: "posts sb' = posts sb @ [q]" "date_of_line (''date: '' @ t @ ''\<newline>'') = Some (date q)"
    by blast
  note kp = date_key_of_line [OF p(2) q(2) assms(4,8)]
  note kq = date_key_of_line(1) [OF q(2) p(2) assms(8,4)]
  have c1: "s = ''2024-01-15'' \<longrightarrow> date p = big_endian ''20240115''"
    using kp(1) by (auto simp: ymd_def)
  have c2: "s = ''2023-12-31'' \<and> t = ''2024-01-15'' \<longrightarrow> sint (date p) < sint (date q)"
    using kp(2) by (auto simp: calendar_less_def number_def)
  have c3: "s = ''2024-01-15'' \<and> t = ''2024-02-01'' \<longrightarrow> sint (date p) < sint (date q)"
    using kp(2) by (auto simp: calendar_less_def number_def)
  from p(1) q(1) kp kq c1 c2 c3 show ?thesis by blast
qed

theorem date_key_witness:
  "read_post (\<lambda>n. 0) (''a.md'', Opens ''A\<newline>date: 2023-12-31\<newline>---\<newline>'') \<lparr>buf = [], posts = []\<rparr>
     = Inr \<lparr>buf = ''{\"path\": \"a.md\", \"date\": \"2023-12-31\"}'' @ [NUL],
            posts = [\<lparr>date = 0x3230323331323331, json = 0\<rparr>]\<rparr> \<and>
   read_post (\<lambda>n. 0) (''b.md'', Opens ''B\<newline>date: 1999-01-01\<newline>tags: x\<newline>date: 2024-01-15\<newline>---\<newline>'') \<lparr>buf = [], posts = []\<rparr>
     = Inr \<lparr>buf = ''{\"path\": \"b.md\", \"date\": \"1999-01-01\", \"tags\": \"x\", \"date\": \"2024-01-15\"}'' @ [NUL],
            posts = [\<lparr>date = 0x3230323430313135, json = 0\<rparr>]\<rparr> \<and>
   read_post (\<lambda>n. 0) (''c.md'', Opens ''C\<newline>date: 2024-02-01\<newline>'') \<lparr>buf = [], posts = []\<rparr>
     = Inr \<lparr>buf = ''{\"path\": \"c.md\", \"date\": \"2024-02-01\"}'' @ [NUL],
            posts = [\<lparr>date = 0x3230323430323031, json = 0\<rparr>]\<rparr> \<and>
   last_date_line ''B\<newline>date: 1999-01-01\<newline>tags: x\<newline>date: 2024-01-15\<newline>---\<newline>''
     = Some ''date: 2024-01-15\<newline>'' \<and>
   (0x3230323430313135 :: 64 word) = big_endian ''20240115'' \<and>
   sint (0x3230323331323331 :: 64 word) < sint (0x3230323430313135 :: 64 word) \<and>
   sint (0x3230323430313135 :: 64 word) < sint (0x3230323430323031 :: 64 word) \<and>
   calendar_less ''2023-12-31'' ''2024-01-15'' \<and> calendar_less ''2024-01-15'' ''2024-02-01''"
proof -
  let ?fa = "''A\<newline>date: 2023-12-31\<newline>---\<newline>''"
  let ?fb = "''B\<newline>date: 1999-01-01\<newline>tags: x\<newline>date: 2024-01-15\<newline>---\<newline>''"
  let ?fc = "''C\<newline>date: 2024-02-01\<newline>''"
  let ?st = "\<lparr>buf = [], posts = []\<rparr>"
  have ra: "read_post (\<lambda>n. 0) (''a.md'', Opens ?fa) ?st
     = Inr \<lparr>buf = ''{\"path\": \"a.md\", \"date\": \"2023-12-31\"}'' @ [NUL],
            posts = [\<lparr>date = 0x3230323331323331, json = 0\<rparr>]\<rparr>"
    by (simp add: run_defs)
  have rb: "read_post (\<lambda>n. 0) (''b.md'', Opens ?fb) ?st
     = Inr \<lparr>buf = ''{\"path\": \"b.md\", \"date\": \"1999-01-01\", \"tags\": \"x\", \"date\": \"2024-01-15\"}'' @ [NUL],
            posts = [\<lparr>date = 0x3230323430313135, json = 0\<rparr>]\<rparr>"
    by (simp add: run_defs)
  have rc: "read_post (\<lambda>n. 0) (''c.md'', Opens ?fc) ?st
     = Inr \<lparr>buf = ''{\"path\": \"c.md\", \"date\": \"2024-02-01\"}'' @ [NUL],
            posts = [\<lparr>date = 0x3230323430323031, json = 0\<rparr>]\<rparr>"
    by (simp add: run_defs)
  have va: "\<not> hidden ''a.md''" and vb: "\<not> hidden ''b.md''" and vc: "\<not> hidden ''c.md''"
    by (simp_all add: run_defs)
  have la: "last_date_line ?fa = Some (''date: '' @ ''2023-12-31'' @ ''\<newline>'')"
    by (simp add: last_date_line_def header_lines_def date_line_def run_defs)
  have lb: "last_date_line ?fb = Some (''date: '' @ ''2024-01-15'' @ ''\<newline>'')"
    by (simp add: last_date_line_def header_lines_def date_line_def run_defs)
  have lc: "last_date_line ?fc = Some (''date: '' @ ''2024-02-01'' @ ''\<newline>'')"
    by (simp add: last_date_line_def header_lines_def date_line_def run_defs)
  have da: "date_digits ''2023-12-31''" and db: "date_digits ''2024-01-15''"
    and dc: "date_digits ''2024-02-01''"
    by (simp_all add: date_digits_def ymd_def digit_def)
  have cal: "calendar_less ''2023-12-31'' ''2024-01-15''" "calendar_less ''2024-01-15'' ''2024-02-01''"
    by (simp_all add: calendar_less_def number_def)
  from date_key_order [OF ra va la da rb vb lb db] date_key_order [OF rb vb lb db rc vc lc dc]
    ra rb rc lb cal
  show ?thesis by simp
qed

text \<open>
  Claim C2, as stated, fails for a header with a later date line: lines 75 to 85 store
  the key in \<^verbatim>\<open>post.date\<close> at every date line, so a file whose header contains
  \<^verbatim>\<open>date: 2024-01-15\<close> and then \<^verbatim>\<open>date: 1999-12-31\<close> is stored with the key of
  \<^verbatim>\<open>1999-12-31\<close>, which is not the bytes \<^verbatim>\<open>20240115\<close> and is less than the key of
  \<^verbatim>\<open>2023-12-31\<close>.
\<close>

theorem later_date_line_counterexample:
  "''date: 2024-01-15\<newline>'' \<in> set (header_lines ''T\<newline>date: 2024-01-15\<newline>date: 1999-12-31\<newline>---\<newline>'') \<and>
   read_post (\<lambda>n. 0) (''a.md'', Opens ''T\<newline>date: 2024-01-15\<newline>date: 1999-12-31\<newline>---\<newline>'')
       \<lparr>buf = [], posts = []\<rparr>
     = Inr \<lparr>buf = ''{\"path\": \"a.md\", \"date\": \"2024-01-15\", \"date\": \"1999-12-31\"}'' @ [NUL],
            posts = [\<lparr>date = 0x3139393931323331, json = 0\<rparr>]\<rparr> \<and>
   (0x3139393931323331 :: 64 word) \<noteq> big_endian ''20240115'' \<and>
   sint (0x3139393931323331 :: 64 word) < sint (big_endian ''20231231'')"
  by (simp add: header_lines_def run_defs big_endian_def)

subsection \<open>A directory of hidden entries\<close>

text \<open>
  Claim C9. When every entry of the directory has a name that begins with a dot, the
  run succeeds and writes exactly the empty array, a line \<^verbatim>\<open>[\<close> and a line \<^verbatim>\<open>]\<close>, to
  the standard output, whatever \<^verbatim>\<open>qsort\<close> the library has.
\<close>

theorem only_hidden_entries_empty_array:
  assumes "qsort_conforms qs" and "\<forall>ent\<in>set ents. hidden (fst ent)"
  shows "main junk qs (Opens ents) = Exit 0 ''[\<newline>]\<newline>'' []"
  by (simp add: main_def read_dir_hidden [OF assms(2)] qsort_conforms_Nil [OF assms(1)])

theorem only_hidden_entries_witness:
  "qsort_conforms (stable_qsort :: (Post \<Rightarrow> Post \<Rightarrow> int) \<Rightarrow> Post list \<Rightarrow> Post list) \<and>
   hidden ''.'' \<and> hidden ''..'' \<and> hidden ''.gitkeep'' \<and>
   main (\<lambda>n. 0) stable_qsort (Opens [(''.'', Opens []), (''..'', Opens []), (''.gitkeep'', Opens [])])
     = Exit 0 ''[\<newline>]\<newline>'' []"
proof -
  have h: "\<forall>ent\<in>set [(''.'', Opens []), (''..'', Opens []), (''.gitkeep'', Opens [])]. hidden (fst ent)"
    by (simp add: hidden_def c_str_def NUL_def)
  show ?thesis
    using stable_qsort_conforms h
      only_hidden_entries_empty_array [OF stable_qsort_conforms h, of "\<lambda>n. 0"]
    by simp
qed

subsection \<open>A header line without a colon\<close>

text \<open>
  Claim C7. The run has gone through the entries \<open>before\<close> and through the lines
  \<open>hs\<close> of the header of the file \<open>name\<close> without stopping, and the next line of
  that header contains no colon. Then the run ends with exit code 1, nothing on the
  standard output, and on the error stream the diagnostic that names the file and the
  line. In every run the standard output is written only with exit code 0, after the
  loop over the directory has gone through all entries.
\<close>

theorem missing_colon_is_fatal:
  assumes "read_dir junk before \<lparr>buf = [], posts = []\<rparr> = Inr st"
      and "\<not> hidden name"
      and "sprintf (buf st) (''{\"path\": \"'' @ c_str name @ ''\"'') = Inr b1"
      and "header_lines contents = hs @ line # rest"
      and "read_header name hs (b1, junk (length (posts st))) = Inr st1"
      and "CHR '':'' \<notin> set line"
  shows "main junk qs (Opens (before @ (name, Opens contents) # after)) =
           Exit 1 [] (c_str name @ '': missing colon in line:\<newline>'' @ [CHR 0x09] @ c_str line) \<and>
         (\<forall>dir c out err. main junk qs dir = Exit c out err \<and> out \<noteq> [] \<longrightarrow>
            c = 0 \<and> (\<exists>ents st'. dir = Opens ents \<and> read_dir junk ents \<lparr>buf = [], posts = []\<rparr> = Inr st'))"
proof -
  let ?stop = "Exit 1 [] (c_str name @ '': missing colon in line:\<newline>'' @ [CHR 0x09] @ c_str line)"
  have nosep: "\<forall>l\<in>set (hs @ [line]). strcmp l metadata_separator \<noteq> 0"
    using header_lines_no_separator [of _ contents] assms(4) by auto
  then have nosep_hs: "\<forall>l\<in>set hs. strcmp l metadata_separator \<noteq> 0" by simp
  have "read_header name (hs @ line # rest) (b1, junk (length (posts st))) =
          read_header name (line # rest) st1"
    by (simp add: read_header_append [OF nosep_hs] assms(5))
  also have "\<dots> = Inl ?stop"
    using nosep by (simp add: header_line_no_colon [OF assms(6)])
  finally have "read_post junk (name, Opens contents) st = Inl ?stop"
    using assms(2,3,4) by (simp add: read_post_visible)
  then have "main junk qs (Opens (before @ (name, Opens contents) # after)) = ?stop"
    by (simp add: main_def read_dir_append assms(1))
  then show ?thesis using stdout_only_after_read_dir by blast
qed

theorem missing_colon_witness:
  "main (\<lambda>n. 0) stable_qsort
     (Opens [(''.'', Opens []),
             (''bad.md'', Opens ''Title\<newline>tags: x\<newline>no colon here\<newline>---\<newline>''),
             (''later.md'', Opens ''Later\<newline>date: 2024-01-15\<newline>---\<newline>'')])
   = Exit 1 [] (''bad.md: missing colon in line:\<newline>'' @ [CHR 0x09] @ ''no colon here\<newline>'')"
proof -
  let ?st = "\<lparr>buf = [], posts = []\<rparr>"
  have h1: "read_dir (\<lambda>n. 0) [(''.'', Opens [])] ?st = Inr ?st"
    by (simp add: run_defs)
  have h2: "\<not> hidden ''bad.md''"
    by (simp add: run_defs)
  have h3: "sprintf (buf ?st) (''{\"path\": \"'' @ c_str ''bad.md'' @ ''\"'') = Inr ''{\"path\": \"bad.md\"''"
    by (simp add: run_defs)
  have h4: "header_lines ''Title\<newline>tags: x\<newline>no colon here\<newline>---\<newline>''
              = [''tags: x\<newline>''] @ ''no colon here\<newline>'' # []"
    by (simp add: header_lines_def run_defs)
  have h5: "read_header ''bad.md'' [''tags: x\<newline>''] (''{\"path\": \"bad.md\"'', (\<lambda>n. 0) (length (posts ?st)))
              = Inr (''{\"path\": \"bad.md\", \"tags\": \"x\"'', 0)"
    by (simp add: run_defs)
  have h6: "CHR '':'' \<notin> set ''no colon here\<newline>''"
    by simp
  show ?thesis
    using missing_colon_is_fatal [OF h1 h2 h3 h4 h5 h6, of stable_qsort
        "[(''later.md'', Opens ''Later\<newline>date: 2024-01-15\<newline>---\<newline>'')]"]
    by (simp add: run_defs)
qed

subsection \<open>The object of a file\<close>

lemma NUL_notin_fmt_s: "NUL \<notin> set (fmt_s p s)"
  using NUL_notin_c_str [of s] by (auto simp: fmt_s_def dest: in_set_takeD)

lemma NUL_notin_field_text: "NUL \<notin> set (field_text line k)"
  by (simp add: field_text_def NUL_notin_fmt_s) (simp add: NUL_def)

lemma NUL_notin_field_of: "NUL \<notin> set (field_of line)"
  by (simp add: field_of_def NUL_notin_field_text split: option.split)

lemma NUL_notin_object_text: "NUL \<notin> set (object_text name contents)"
  by (simp add: object_text_def NUL_notin_c_str NUL_notin_field_of) (simp add: NUL_def)

lemma sprintf_Inr: "sprintf b s = Inr b' \<Longrightarrow> b' = b @ s"
  by (simp add: sprintf_def split: if_splits)

lemma header_line_buf:
  assumes "header_line name line (b, k) = Inr (b', k')"
  shows "b' = b @ field_of line"
  using assms
  by (auto simp: header_line_def emit_field_def field_of_def
      split: option.splits sum.splits if_splits dest: sprintf_Inr)

lemma read_header_buf:
  assumes "read_header name ls (b, k) = Inr (b', k')"
      and "\<forall>l\<in>set ls. strcmp l metadata_separator \<noteq> 0"
  shows "b' = b @ concat (map field_of ls)"
  using assms
proof (induction ls arbitrary: b k)
  case Nil
  then show ?case by simp
next
  case (Cons l ls)
  from Cons.prems obtain b1 k1 where
    step: "header_line name l (b, k) = Inr (b1, k1)" and
    rest: "read_header name ls (b1, k1) = Inr (b', k')"
    by (auto split: sum.splits)
  have "b' = b1 @ concat (map field_of ls)"
    using Cons.IH [OF rest] Cons.prems(2) by simp
  with header_line_buf [OF step] show ?case by simp
qed

lemma read_post_object:
  assumes "read_post junk (name, Opens contents) st = Inr st'" and "\<not> hidden name"
  shows "\<exists>k. buf st' = buf st @ object_text name contents @ [NUL] \<and>
             posts st' = posts st @ [\<lparr>date = k, json = length (buf st)\<rparr>]"
proof -
  from assms obtain b1 b2 k where
    path: "sprintf (buf st) (''{\"path\": \"'' @ c_str name @ ''\"'') = Inr b1" and
    hdr: "read_header name (header_lines contents) (b1, junk (length (posts st))) = Inr (b2, k)" and
    st': "st' = \<lparr>buf = b2 @ ''}'' @ [NUL], posts = posts st @ [\<lparr>date = k, json = length (buf st)\<rparr>]\<rparr>"
    by (auto simp: read_post_def read_header_header_lines Let_def
        split: sum.splits if_splits prod.splits)
  have "\<forall>l\<in>set (header_lines contents). strcmp l metadata_separator \<noteq> 0"
    using header_lines_no_separator by blast
  from read_header_buf [OF hdr this] sprintf_Inr [OF path] st'
  show ?thesis by (simp add: object_text_def)
qed

lemma c_str_append_NUL: "NUL \<in> set xs \<Longrightarrow> c_str (xs @ ys) = c_str xs"
  by (induction xs) (auto simp: c_str_def)

lemma c_str_terminated: "NUL \<notin> set xs \<Longrightarrow> c_str (xs @ NUL # ys) = xs"
  by (induction xs) (auto simp: c_str_def)

lemma objects_append:
  assumes "terminated st"
  shows "map (\<lambda>p. c_str (drop (json p) (buf st @ extra))) (posts st) = objects st"
  using assms by (auto simp: terminated_def objects_def list_all_iff c_str_append_NUL)

lemma terminated_append:
  assumes "terminated st"
  shows "list_all (\<lambda>p. NUL \<in> set (drop (json p) (buf st @ extra))) (posts st)"
  using assms by (auto simp: terminated_def list_all_iff)

lemma read_post_objects:
  assumes "terminated st" and "read_post junk ent st = Inr st'"
  shows "terminated st' \<and> objects st' = objects st @ visible_objects [ent]"
proof (cases "hidden (fst ent)")
  case True
  with assms show ?thesis
    by (simp add: read_post_hidden visible_objects_def split: opened.split)
next
  case False
  obtain name fl where ent: "ent = (name, fl)" by (cases ent)
  with False have vis: "\<not> hidden name" by simp
  from assms(2) ent vis obtain contents where fl: "fl = Opens contents"
    by (cases fl) (auto simp: read_post_def split: sum.splits)
  from read_post_object [OF assms(2) [unfolded ent fl] vis] obtain k where
    b: "buf st' = buf st @ object_text name contents @ [NUL]" and
    p: "posts st' = posts st @ [\<lparr>date = k, json = length (buf st)\<rparr>]"
    by blast
  have obj: "c_str (object_text name contents @ [NUL]) = object_text name contents"
    using c_str_terminated [OF NUL_notin_object_text, of name contents "[]"] by simp
  let ?b' = "buf st @ (object_text name contents @ [NUL])"
  have old: "list_all (\<lambda>p. NUL \<in> set (drop (json p) ?b')) (posts st)"
    using assms(1) by (rule terminated_append)
  have new: "NUL \<in> set (drop (length (buf st)) ?b')"
    by simp
  have "terminated st'"
    unfolding terminated_def b p using old new by (simp del: drop_append set_append)
  moreover have "objects st' = objects st @ [object_text name contents]"
  proof -
    have "map (\<lambda>p. c_str (drop (json p) ?b')) (posts st) = objects st"
      using assms(1) by (rule objects_append)
    moreover have "c_str (drop (length (buf st)) ?b') = object_text name contents"
      using obj by simp
    ultimately show ?thesis
      unfolding objects_def b p by (simp del: drop_append)
  qed
  ultimately show ?thesis using ent fl vis by (simp add: visible_objects_def)
qed

lemma visible_objects_Cons:
  "visible_objects (ent # ents) = visible_objects [ent] @ visible_objects ents"
  by (simp add: visible_objects_def)

lemma read_dir_objects:
  assumes "terminated st" and "read_dir junk ents st = Inr st'"
  shows "terminated st' \<and> objects st' = objects st @ visible_objects ents"
  using assms
proof (induction ents arbitrary: st)
  case Nil
  then show ?case by (simp add: visible_objects_def)
next
  case (Cons ent ents)
  from Cons.prems(2) obtain st1 where
    one: "read_post junk ent st = Inr st1" and rest: "read_dir junk ents st1 = Inr st'"
    by (auto split: sum.splits)
  from read_post_objects [OF Cons.prems(1) one]
  have t1: "terminated st1" and o1: "objects st1 = objects st @ visible_objects [ent]"
    by simp_all
  from Cons.IH [OF t1 rest] o1 show ?case
    by (simp add: visible_objects_Cons [of ent ents])
qed

lemma main_output:
  assumes "qsort_conforms qs" and "main junk qs (Opens ents) = Exit 0 out err"
  shows "\<exists>objs. out = ''[\<newline>'' @ concat (map (\<lambda>obj. obj @ ''\<newline>'') objs) @ '']\<newline>'' \<and>
           mset objs = mset (visible_objects ents)"
proof -
  from assms(2) obtain st where
    rd: "read_dir junk ents \<lparr>buf = [], posts = []\<rparr> = Inr st" and
    out: "out = ''[\<newline>'' @ concat (map (puts (buf st)) (qs cmp_posts (posts st))) @ '']\<newline>''"
    by (auto simp: main_def split: sum.splits dest: read_dir_stop)
  have "terminated \<lparr>buf = [], posts = []\<rparr>" by (simp add: terminated_def)
  from read_dir_objects [OF this rd] have objs: "objects st = visible_objects ents"
    by (simp add: objects_def)
  let ?f = "\<lambda>p. c_str (drop (json p) (buf st))"
  let ?objs = "map ?f (qs cmp_posts (posts st))"
  have "puts (buf st) = (\<lambda>p. ?f p @ ''\<newline>'')"
    by (rule ext) (simp add: puts_def)
  then have "out = ''[\<newline>'' @ concat (map (\<lambda>obj. obj @ ''\<newline>'') ?objs) @ '']\<newline>''"
    using out by (simp add: comp_def)
  moreover have "mset ?objs = mset (objects st)"
  proof -
    have "mset (qs cmp_posts (posts st)) = mset (posts st)"
      using assms(1) by (rule qsort_conforms_mset)
    then have "image_mset ?f (mset (qs cmp_posts (posts st))) = image_mset ?f (mset (posts st))"
      by simp
    then show ?thesis by (simp add: objects_def)
  qed
  ultimately have "out = ''[\<newline>'' @ concat (map (\<lambda>obj. obj @ ''\<newline>'') ?objs) @ '']\<newline>'' \<and>
      mset ?objs = mset (visible_objects ents)"
    using objs by simp
  then show ?thesis by (rule exI [of _ ?objs])
qed

lemma c_str_no_NUL: "NUL \<notin> set s \<Longrightarrow> c_str s = s"
  by (auto simp: c_str_def)

lemma takeWhile_until: "c \<notin> set k \<Longrightarrow> takeWhile (\<lambda>x. x \<noteq> c) (k @ c # rest) = k"
  by (induction k) auto

lemma field_of_metadata_line:
  assumes "NUL \<notin> set (fst kv)" and "CHR '':'' \<notin> set (fst kv)" and "NUL \<notin> set (snd kv)"
  shows "field_of (metadata_line kv) = json_field kv"
proof -
  obtain k v where kv: "kv = (k, v)" by (cases kv)
  let ?line = "k @ '': '' @ v @ ''\<newline>''"
  have nonul: "NUL \<notin> set ?line" using assms kv by (simp add: NUL_def)
  have cs: "c_str ?line = ?line" using nonul by (rule c_str_no_NUL)
  have "takeWhile (\<lambda>x. x \<noteq> CHR '':'') (k @ CHR '':'' # ('' '' @ v @ ''\<newline>'')) = k"
    using assms(2) kv by (intro takeWhile_until) simp
  then have chr: "strchr ?line CHR '':'' = Some (length k)"
    unfolding strchr_def cs by simp
  have key: "fmt_s (int (length k)) ?line = k"
    unfolding fmt_s_def cs by simp
  have tail: "c_str (v @ ''\<newline>'') = v @ ''\<newline>''"
    using assms(3) kv by (intro c_str_no_NUL) (simp add: NUL_def)
  have val: "fmt_s (int (length ?line) - int (length k) - 3) (drop (length k + 2) ?line) = v"
    unfolding fmt_s_def using tail by simp
  show ?thesis
    unfolding kv metadata_line_def json_field_def field_of_def fst_conv snd_conv chr option.case
      field_text_def key val
    by simp
qed

lemma object_text_json_object:
  assumes "header_lines contents = map metadata_line kvs"
      and "\<forall>kv\<in>set kvs. NUL \<notin> set (fst kv) \<and> CHR '':'' \<notin> set (fst kv) \<and> NUL \<notin> set (snd kv)"
  shows "object_text name contents = json_object (c_str name) kvs"
proof -
  have "map field_of (map metadata_line kvs) = map json_field kvs"
    using assms(2) by (simp add: field_of_metadata_line)
  then show ?thesis by (simp only: object_text_def json_object_def assms(1))
qed

lemma visible_objects_mem:
  assumes "(name, Opens contents) \<in> set ents" and "\<not> hidden name"
  shows "object_text name contents \<in> set (visible_objects ents)"
  using assms by (force simp: visible_objects_def)

lemma plain_simps [simp]:
  "plain []"
  "plain (c # s) = (c \<noteq> CHR 0x22 \<and> c \<noteq> CHR 0x5C \<and> 32 \<le> (of_char c :: nat) \<and> plain s)"
  by (simp_all add: plain_def)

lemma plain_no_NUL: "plain s \<Longrightarrow> NUL \<notin> set s"
  by (induction s) (auto simp: NUL_def)

lemma json_string_Cons:
  "json_string (c # cs) =
     (if c = CHR 0x22 then Some ([], cs)
      else if c = CHR 0x5C then
        (case cs of
           [] \<Rightarrow> None
         | e # r \<Rightarrow> (case unescape e of
                       None \<Rightarrow> None
                     | Some x \<Rightarrow> map_option (\<lambda>r. (x # fst r, snd r)) (json_string r)))
      else if (of_char c :: nat) < 32 then None
      else map_option (\<lambda>r. (c # fst r, snd r)) (json_string cs))"
  by (cases cs) simp_all

lemma json_string_plain: "plain s \<Longrightarrow> json_string (s @ CHR 0x22 # r) = Some (s, r)"
  by (induction s) (simp_all add: json_string_Cons)

lemma ws_simps [simp]:
  "ws [] = []"
  "ws (CHR '' '' # t) = ws t"
  "ws (CHR 0x22 # t) = CHR 0x22 # t"
  "ws (CHR '':'' # t) = CHR '':'' # t"
  "ws (CHR '','' # t) = CHR '','' # t"
  "ws (CHR ''{'' # t) = CHR ''{'' # t"
  "ws (CHR ''}'' # t) = CHR ''}'' # t"
  by (simp_all add: ws_def)

lemma json_member_plain:
  assumes "plain k" and "plain v"
  shows "json_member (CHR 0x22 # k @ CHR 0x22 # CHR '':'' # CHR '' '' # CHR 0x22 # v @ CHR 0x22 # r)
         = Some ((k, v), r)"
  using json_string_plain [OF assms(1)] json_string_plain [OF assms(2)]
  by (simp add: json_member_def)

lemma json_member_space: "json_member (CHR '' '' # t) = json_member t"
  by (simp add: json_member_def)

lemma json_field_Cons:
  "json_field kv @ r =
     CHR '','' # CHR '' '' # CHR 0x22 # fst kv @ CHR 0x22 # CHR '':'' # CHR '' '' # CHR 0x22 # snd kv @ CHR 0x22 # r"
  by (simp add: json_field_def)

lemma json_members_fields:
  assumes "\<forall>kv\<in>set kvs. plain (fst kv) \<and> plain (snd kv)" and "length kvs < n"
  shows "json_members n (concat (map json_field kvs) @ ''}'') = Some kvs"
  using assms
proof (induction kvs arbitrary: n)
  case Nil
  then obtain m where "n = Suc m" by (cases n) auto
  then show ?case by simp
next
  case (Cons kv kvs)
  then obtain m where n: "n = Suc m" and m: "length kvs < m" by (cases n) auto
  have pk: "plain (fst kv)" and pv: "plain (snd kv)" using Cons.prems(1) by simp_all
  have ih: "json_members m (concat (map json_field kvs) @ ''}'') = Some kvs"
    using Cons.IH [OF _ m] Cons.prems(1) by simp
  show ?case
    unfolding n by (simp add: json_field_Cons json_member_space json_member_plain [OF pk pv] ih)
qed

lemma length_fields: "length kvs < length (concat (map json_field kvs) @ ''}'')"
  by (induction kvs) (simp_all add: json_field_def)

lemma json_read_members:
  assumes "json_member (CHR 0x22 # t) = Some (kv, rest)"
      and "json_members (length rest) rest = Some kvs"
  shows "json_read (CHR ''{'' # CHR 0x22 # t) = Some (kv # kvs)"
  using assms by (simp add: json_read_def)

lemma json_read_json_object:
  assumes "plain path" and "\<forall>kv\<in>set kvs. plain (fst kv) \<and> plain (snd kv)"
  shows "json_read (json_object path kvs) = Some ((''path'', path) # kvs)"
proof -
  have obj: "json_object path kvs =
     CHR ''{'' # CHR 0x22 # ''path'' @ CHR 0x22 # CHR '':'' # CHR '' '' # CHR 0x22 # path @ CHR 0x22 #
       (concat (map json_field kvs) @ ''}'')"
    by (simp add: json_object_def)
  have pp: "plain ''path''" by simp
  let ?rest = "concat (map json_field kvs) @ ''}''"
  have mem: "json_member (CHR 0x22 # ''path'' @ CHR 0x22 # CHR '':'' # CHR '' '' # CHR 0x22 # path @
                CHR 0x22 # ?rest) = Some ((''path'', path), ?rest)"
    by (rule json_member_plain [OF pp assms(1)])
  have mems: "json_members (length ?rest) ?rest = Some kvs"
    by (rule json_members_fields [OF assms(2) length_fields])
  show ?thesis
    unfolding obj by (rule json_read_members [OF mem mems])
qed


lemma object_text_plain:
  assumes "header_lines contents = map metadata_line kvs"
      and "\<forall>kv\<in>set kvs. plain (fst kv) \<and> CHR '':'' \<notin> set (fst kv) \<and> plain (snd kv)"
  shows "object_text name contents = json_object (c_str name) kvs"
  using assms(2) by (intro object_text_json_object [OF assms(1)]) (simp add: plain_no_NUL)

text \<open>
  Claim C6, as amended. In a successful run, take a file that is not skipped, whose
  name, keys and values are made of bytes that stand for themselves in a JSON string
  (no quote, no backslash, no control character, so no zero byte), and whose header
  lines are each \<^verbatim>\<open>key: value\<close> and a newline, the key without a colon. The output is the line \<^verbatim>\<open>[\<close>, one line for
  each object and the line \<^verbatim>\<open>]\<close>, the objects are those of the files that are not
  skipped, and the object of the file is its path and then the field
  \<^verbatim>\<open>"key": "value"\<close> of every pair of its header, byte for byte and in their order; a
  reader of JSON reads it as the path and then exactly the pairs of the header, each
  a string with the same name and the same value.
\<close>

theorem header_pairs_round_trip:
  assumes "qsort_conforms qs"
      and "main junk qs (Opens ents) = Exit 0 out err"
      and "(name, Opens contents) \<in> set ents" and "\<not> hidden name" and "plain (c_str name)"
      and "header_lines contents = map metadata_line kvs"
      and "\<forall>kv\<in>set kvs. plain (fst kv) \<and> CHR '':'' \<notin> set (fst kv) \<and> plain (snd kv)"
  shows "\<exists>objs. out = ''[\<newline>'' @ concat (map (\<lambda>obj. obj @ ''\<newline>'') objs) @ '']\<newline>'' \<and>
           mset objs = mset (visible_objects ents) \<and>
           json_object (c_str name) kvs \<in> set objs \<and>
           json_read (json_object (c_str name) kvs) = Some ((''path'', c_str name) # kvs)"
proof -
  from main_output [OF assms(1,2)] obtain objs where
    out: "out = ''[\<newline>'' @ concat (map (\<lambda>obj. obj @ ''\<newline>'') objs) @ '']\<newline>''" and
    ms: "mset objs = mset (visible_objects ents)"
    by blast
  have "object_text name contents \<in> set (visible_objects ents)"
    using assms(3,4) by (rule visible_objects_mem)
  then have "json_object (c_str name) kvs \<in> set (visible_objects ents)"
    using object_text_plain [OF assms(6,7)] by simp
  then have mem: "json_object (c_str name) kvs \<in> set objs"
    using ms by (metis set_mset_mset)
  have "\<forall>kv\<in>set kvs. plain (fst kv) \<and> plain (snd kv)" using assms(7) by simp
  from json_read_json_object [OF assms(5) this] out ms mem show ?thesis by blast
qed

theorem header_pairs_witness:
  "main (\<lambda>n. 0) stable_qsort
     (Opens [(''.'', Opens []),
             (''a.md'', Opens ''Title\<newline>date: 2024-01-15\<newline>tags: x, y\<newline>---\<newline>body\<newline>''),
             (''b.md'', Opens ''Other\<newline>'')])
     = Exit 0 (''[\<newline>'' @
               ''{\"path\": \"a.md\", \"date\": \"2024-01-15\", \"tags\": \"x, y\"}\<newline>'' @
               ''{\"path\": \"b.md\"}\<newline>'' @ '']\<newline>'') [] \<and>
   header_lines ''Title\<newline>date: 2024-01-15\<newline>tags: x, y\<newline>---\<newline>body\<newline>''
     = map metadata_line [(''date'', ''2024-01-15''), (''tags'', ''x, y'')] \<and>
   plain ''a.md'' \<and> plain ''date'' \<and> plain ''2024-01-15'' \<and> plain ''tags'' \<and> plain ''x, y'' \<and>
   (\<exists>objs. ''[\<newline>'' @
               ''{\"path\": \"a.md\", \"date\": \"2024-01-15\", \"tags\": \"x, y\"}\<newline>'' @
               ''{\"path\": \"b.md\"}\<newline>'' @ '']\<newline>''
              = ''[\<newline>'' @ concat (map (\<lambda>obj. obj @ ''\<newline>'') objs) @ '']\<newline>'' \<and>
            json_object ''a.md'' [(''date'', ''2024-01-15''), (''tags'', ''x, y'')] \<in> set objs) \<and>
   json_object ''a.md'' [(''date'', ''2024-01-15''), (''tags'', ''x, y'')]
     = ''{\"path\": \"a.md\", \"date\": \"2024-01-15\", \"tags\": \"x, y\"}'' \<and>
   json_read ''{\"path\": \"a.md\", \"date\": \"2024-01-15\", \"tags\": \"x, y\"}''
     = Some [(''path'', ''a.md''), (''date'', ''2024-01-15''), (''tags'', ''x, y'')]"
proof -
  let ?contents = "''Title\<newline>date: 2024-01-15\<newline>tags: x, y\<newline>---\<newline>body\<newline>''"
  let ?ents = "[(''.'', Opens []), (''a.md'', Opens ?contents), (''b.md'', Opens ''Other\<newline>'')]"
  let ?out = "''[\<newline>'' @
               ''{\"path\": \"a.md\", \"date\": \"2024-01-15\", \"tags\": \"x, y\"}\<newline>'' @
               ''{\"path\": \"b.md\"}\<newline>'' @ '']\<newline>''"
  let ?kvs = "[(''date'', ''2024-01-15''), (''tags'', ''x, y'')]"
  have h2: "main (\<lambda>n. 0) stable_qsort (Opens ?ents) = Exit 0 ?out []"
    by (simp add: run_defs stable_qsort_def cmp_posts_def)
  have h3: "(''a.md'', Opens ?contents) \<in> set ?ents" by simp
  have h4: "\<not> hidden ''a.md''" by (simp add: run_defs)
  have cs: "c_str ''a.md'' = ''a.md''" by (simp add: run_defs)
  have h5: "plain (c_str ''a.md'')" unfolding cs by (simp add: plain_def)
  have h6: "header_lines ?contents = map metadata_line ?kvs"
    by (simp add: header_lines_def metadata_line_def run_defs)
  have h7: "\<forall>kv\<in>set ?kvs. plain (fst kv) \<and> CHR '':'' \<notin> set (fst kv) \<and> plain (snd kv)"
    by (simp add: plain_def)
  have pl: "plain ''a.md'' \<and> plain ''date'' \<and> plain ''2024-01-15'' \<and> plain ''tags'' \<and> plain ''x, y''"
    by (simp add: plain_def)
  have obj: "json_object ''a.md'' ?kvs
     = ''{\"path\": \"a.md\", \"date\": \"2024-01-15\", \"tags\": \"x, y\"}''"
    by (simp add: json_object_def json_field_def)
  from header_pairs_round_trip [OF stable_qsort_conforms h2 h3 h4 h5 h6 h7]
  obtain objs where
    "?out = ''[\<newline>'' @ concat (map (\<lambda>obj. obj @ ''\<newline>'') objs) @ '']\<newline>''"
    "json_object ''a.md'' ?kvs \<in> set objs"
    "json_read (json_object ''a.md'' ?kvs) = Some ((''path'', ''a.md'') # ?kvs)"
    unfolding cs by blast
  then show ?thesis using h2 h6 pl obj by (intro conjI exI [of _ objs]) simp_all
qed

text \<open>
  Claim C6, as stated, fails, since lines 67 to 74 copy the bytes of the line and escape
  nothing. Each of these files is read without error. A quote in a value ends the
  string: the header \<^verbatim>\<open>k: a", "x": "y\<close> of one pair gives an object with the two fields
  \<^verbatim>\<open>k\<close> and \<^verbatim>\<open>x\<close>. A backslash and the byte after it are read as one byte: a value of
  the four bytes \<^verbatim>\<open>a\<close>, backslash, \<^verbatim>\<open>n\<close>, \<^verbatim>\<open>b\<close> is read as \<^verbatim>\<open>a\<close>, a newline and \<^verbatim>\<open>b\<close>. With a
  tab in a value the object is not JSON. \<^verbatim>\<open>%.*s\<close> stops at a zero byte, so the value
  \<^verbatim>\<open>a\<close>, zero, \<^verbatim>\<open>b\<close> is printed as \<^verbatim>\<open>a\<close>. A quote in the name of the file gives a field
  that no header has. And line 74 takes the value to end one byte before the end of
  the line, so in a header that the end of the file ends, with no newline after the
  last line \<^verbatim>\<open>k: v\<close>, the value \<^verbatim>\<open>v\<close> is printed as the empty string.
\<close>

theorem header_pairs_counterexample:
  "header_lines ''T\<newline>k: a\", \"x\": \"y\<newline>'' = [metadata_line (''k'', ''a\", \"x\": \"y'')] \<and>
   main (\<lambda>n. 0) stable_qsort (Opens [(''a.md'', Opens ''T\<newline>k: a\", \"x\": \"y\<newline>'')])
     = Exit 0 (''[\<newline>'' @ ''{\"path\": \"a.md\", \"k\": \"a\", \"x\": \"y\"}\<newline>'' @ '']\<newline>'') [] \<and>
   json_read ''{\"path\": \"a.md\", \"k\": \"a\", \"x\": \"y\"}''
     = Some [(''path'', ''a.md''), (''k'', ''a''), (''x'', ''y'')] \<and>
   header_lines (''T\<newline>k: a'' @ CHR 0x5C # ''nb\<newline>'') = [metadata_line (''k'', ''a'' @ CHR 0x5C # ''nb'')] \<and>
   main (\<lambda>n. 0) stable_qsort (Opens [(''a.md'', Opens (''T\<newline>k: a'' @ CHR 0x5C # ''nb\<newline>''))])
     = Exit 0 (''[\<newline>'' @ ''{\"path\": \"a.md\", \"k\": \"a'' @ CHR 0x5C # ''nb\"}\<newline>'' @ '']\<newline>'') [] \<and>
   json_read (''{\"path\": \"a.md\", \"k\": \"a'' @ CHR 0x5C # ''nb\"}'')
     = Some [(''path'', ''a.md''), (''k'', ''a\<newline>b'')] \<and>
   header_lines (''T\<newline>k: a'' @ CHR 0x09 # ''b\<newline>'') = [metadata_line (''k'', ''a'' @ CHR 0x09 # ''b'')] \<and>
   main (\<lambda>n. 0) stable_qsort (Opens [(''a.md'', Opens (''T\<newline>k: a'' @ CHR 0x09 # ''b\<newline>''))])
     = Exit 0 (''[\<newline>'' @ ''{\"path\": \"a.md\", \"k\": \"a'' @ CHR 0x09 # ''b\"}\<newline>'' @ '']\<newline>'') [] \<and>
   json_read (''{\"path\": \"a.md\", \"k\": \"a'' @ CHR 0x09 # ''b\"}'') = None \<and>
   header_lines (''T\<newline>k: a'' @ NUL # ''b\<newline>'') = [metadata_line (''k'', ''a'' @ NUL # ''b'')] \<and>
   main (\<lambda>n. 0) stable_qsort (Opens [(''a.md'', Opens (''T\<newline>k: a'' @ NUL # ''b\<newline>''))])
     = Exit 0 (''[\<newline>'' @ ''{\"path\": \"a.md\", \"k\": \"a\"}\<newline>'' @ '']\<newline>'') [] \<and>
   header_lines ''T\<newline>'' = map metadata_line [] \<and>
   main (\<lambda>n. 0) stable_qsort (Opens [(''a\", \"x\": \"y'', Opens ''T\<newline>'')])
     = Exit 0 (''[\<newline>'' @ ''{\"path\": \"a\", \"x\": \"y\"}\<newline>'' @ '']\<newline>'') [] \<and>
   json_read ''{\"path\": \"a\", \"x\": \"y\"}'' = Some [(''path'', ''a''), (''x'', ''y'')] \<and>
   header_lines ''Title\<newline>k: v'' = [''k: v''] \<and>
   main (\<lambda>n. 0) stable_qsort (Opens [(''a.md'', Opens ''Title\<newline>k: v'')])
     = Exit 0 (''[\<newline>'' @ ''{\"path\": \"a.md\", \"k\": \"\"}\<newline>'' @ '']\<newline>'') []"
  by (simp add: header_lines_def metadata_line_def run_defs stable_qsort_def cmp_posts_def
      json_read_def json_member_def ws_def unescape_def)

subsection \<open>The order of the output\<close>

lemma main_output_unsorted:
  assumes "main junk (\<lambda>cmp ps. ps) (Opens ents) = Exit 0 out err"
  shows "out = ''[\<newline>'' @ concat (map (\<lambda>obj. obj @ ''\<newline>'') (visible_objects ents)) @ '']\<newline>''"
proof -
  from assms obtain st where
    rd: "read_dir junk ents \<lparr>buf = [], posts = []\<rparr> = Inr st" and
    out: "out = ''[\<newline>'' @ concat (map (puts (buf st)) (posts st)) @ '']\<newline>''"
    by (auto simp: main_def split: sum.splits dest: read_dir_stop)
  have "terminated \<lparr>buf = [], posts = []\<rparr>" by (simp add: terminated_def)
  from read_dir_objects [OF this rd] have objs: "objects st = visible_objects ents"
    by (simp add: objects_def)
  have "map (puts (buf st)) (posts st) = map (\<lambda>obj. obj @ ''\<newline>'') (objects st)"
    by (simp add: puts_def objects_def)
  with out objs show ?thesis by simp
qed

text \<open>
  Claim C5, as amended. The comparison function returns 0 for every pair of records,
  whatever their dates, so the sort never orders by date. With a \<^verbatim>\<open>qsort\<close> that keeps
  elements that compare equal in their order, a stable one, the sort leaves every list
  of records as it is, and a successful run prints the objects of the files that are
  not skipped in the order of the directory enumeration.
\<close>

theorem stable_qsort_keeps_enumeration_order:
  assumes "qsort_stable qs" and "main junk qs (Opens ents) = Exit 0 out err"
  shows "cmp_posts lhs rhs = 0 \<and> qs cmp_posts ps = ps \<and>
         out = ''[\<newline>'' @ concat (map (\<lambda>obj. obj @ ''\<newline>'') (visible_objects ents)) @ '']\<newline>''"
proof -
  have "main junk (\<lambda>cmp ps. ps) (Opens ents) = Exit 0 out err"
    using assms(2) by (simp add: main_def qsort_stable_cmp_posts [OF assms(1)] split: sum.splits)
  then show ?thesis
    using main_output_unsorted cmp_posts_0 qsort_stable_cmp_posts [OF assms(1)] by blast
qed

theorem stable_qsort_witness:
  "qsort_stable (stable_qsort :: (Post \<Rightarrow> Post \<Rightarrow> int) \<Rightarrow> Post list \<Rightarrow> Post list) \<and>
   visible_objects [(''.'', Opens []),
                    (''old.md'', Opens ''Old\<newline>date: 2023-12-25\<newline>---\<newline>''),
                    (''new.md'', Opens ''New\<newline>date: 2024-03-01\<newline>---\<newline>'')]
     = [''{\"path\": \"old.md\", \"date\": \"2023-12-25\"}'',
        ''{\"path\": \"new.md\", \"date\": \"2024-03-01\"}''] \<and>
   main (\<lambda>n. 0) stable_qsort
     (Opens [(''.'', Opens []),
             (''old.md'', Opens ''Old\<newline>date: 2023-12-25\<newline>---\<newline>''),
             (''new.md'', Opens ''New\<newline>date: 2024-03-01\<newline>---\<newline>'')])
   = Exit 0 (''[\<newline>'' @
             ''{\"path\": \"old.md\", \"date\": \"2023-12-25\"}\<newline>'' @
             ''{\"path\": \"new.md\", \"date\": \"2024-03-01\"}\<newline>'' @
             '']\<newline>'') []"
proof -
  let ?ents = "[(''.'', Opens []),
             (''old.md'', Opens ''Old\<newline>date: 2023-12-25\<newline>---\<newline>''),
             (''new.md'', Opens ''New\<newline>date: 2024-03-01\<newline>---\<newline>'')]"
  let ?out = "''[\<newline>'' @
             ''{\"path\": \"old.md\", \"date\": \"2023-12-25\"}\<newline>'' @
             ''{\"path\": \"new.md\", \"date\": \"2024-03-01\"}\<newline>'' @
             '']\<newline>''"
  have run: "main (\<lambda>n. 0) stable_qsort (Opens ?ents) = Exit 0 ?out []"
    by (simp add: run_defs stable_qsort_def cmp_posts_def)
  have vis: "visible_objects ?ents
     = [''{\"path\": \"old.md\", \"date\": \"2023-12-25\"}'',
        ''{\"path\": \"new.md\", \"date\": \"2024-03-01\"}'']"
    by (simp add: visible_objects_def object_text_def field_of_def header_lines_def run_defs)
  from stable_qsort_keeps_enumeration_order [OF stable_qsort_stable run] stable_qsort_stable run vis
  show ?thesis by simp
qed

text \<open>
  Claim C5, as stated, fails: that the output order equals the enumeration order does
  not follow from the comparison function returning 0. \<^verbatim>\<open>qsort\<close> may leave elements
  that compare equal in any order. \<open>pivoting_qsort\<close> meets the contract of \<^verbatim>\<open>qsort\<close>
  (\<open>pivoting_qsort_conforms\<close>), and with it, of seven files, the fourth is printed
  first and the first is printed fourth.
\<close>

theorem enumeration_order_counterexample:
  "main (\<lambda>n. 0) pivoting_qsort
     (Opens [(''a.md'', Opens ''A\<newline>date: 2024-01-07\<newline>---\<newline>''),
             (''b.md'', Opens ''B\<newline>date: 2024-01-06\<newline>---\<newline>''),
             (''c.md'', Opens ''C\<newline>date: 2024-01-05\<newline>---\<newline>''),
             (''d.md'', Opens ''D\<newline>date: 2024-01-04\<newline>---\<newline>''),
             (''e.md'', Opens ''E\<newline>date: 2024-01-03\<newline>---\<newline>''),
             (''f.md'', Opens ''F\<newline>date: 2024-01-02\<newline>---\<newline>''),
             (''g.md'', Opens ''G\<newline>date: 2024-01-01\<newline>---\<newline>'')])
   = Exit 0 (''[\<newline>'' @
             ''{\"path\": \"d.md\", \"date\": \"2024-01-04\"}\<newline>'' @
             ''{\"path\": \"b.md\", \"date\": \"2024-01-06\"}\<newline>'' @
             ''{\"path\": \"c.md\", \"date\": \"2024-01-05\"}\<newline>'' @
             ''{\"path\": \"a.md\", \"date\": \"2024-01-07\"}\<newline>'' @
             ''{\"path\": \"e.md\", \"date\": \"2024-01-03\"}\<newline>'' @
             ''{\"path\": \"f.md\", \"date\": \"2024-01-02\"}\<newline>'' @
             ''{\"path\": \"g.md\", \"date\": \"2024-01-01\"}\<newline>'' @
             '']\<newline>'') []"
  by (simp add: run_defs pivoting_qsort_def stable_qsort_def cmp_posts_def)

subsection \<open>More than \<open>MAX_POSTS\<close> files\<close>

lemma read_post_empty_file:
  assumes "\<not> hidden name" and "length name \<le> 100"
      and "length (posts st) < MAX_POSTS" and "length (buf st) + 120 \<le> BUFFER_SIZE"
  shows "\<exists>st'. read_post junk (name, Opens []) st = Inr st' \<and>
           length (posts st') = Suc (length (posts st)) \<and> length (buf st') \<le> length (buf st) + 120"
proof -
  have "length (c_str name) \<le> length name" unfolding c_str_def by (rule length_takeWhile_le)
  with assms show ?thesis
    by (simp add: read_post_def sprintf_def Let_def)
qed

lemma read_dir_empty_files:
  assumes "\<forall>ent\<in>set ents. \<not> hidden (fst ent) \<and> snd ent = Opens [] \<and> length (fst ent) \<le> 100"
      and "length (posts st) + length ents \<le> MAX_POSTS"
      and "length (buf st) + 120 * length ents \<le> BUFFER_SIZE"
  shows "\<exists>st'. read_dir junk ents st = Inr st' \<and>
           length (posts st') = length (posts st) + length ents \<and>
           length (buf st') \<le> length (buf st) + 120 * length ents"
  using assms
proof (induction ents arbitrary: st)
  case Nil
  then show ?case by simp
next
  case (Cons ent ents)
  obtain name where ent: "ent = (name, Opens [])" and vis: "\<not> hidden name" and nm: "length name \<le> 100"
    using Cons.prems(1) by (cases ent) auto
  from Cons.prems(2,3) have "length (posts st) < MAX_POSTS" "length (buf st) + 120 \<le> BUFFER_SIZE"
    by simp_all
  from read_post_empty_file [OF vis nm this] obtain st1 where
    st1: "read_post junk (name, Opens []) st = Inr st1"
      "length (posts st1) = Suc (length (posts st))" "length (buf st1) \<le> length (buf st) + 120"
    by blast
  have "\<exists>st'. read_dir junk ents st1 = Inr st' \<and>
           length (posts st') = length (posts st1) + length ents \<and>
           length (buf st') \<le> length (buf st1) + 120 * length ents"
    using Cons.prems st1 by (intro Cons.IH) auto
  then show ?case using st1 ent by auto
qed

lemma dec_length: "n < 1000 \<Longrightarrow> length (dec n) \<le> 3"
  by (simp add: dec.simps)

lemma visible_p: "\<not> hidden (CHR ''p'' # s)"
  by (simp add: hidden_def c_str_Cons NUL_def)

text \<open>
  Claim C8 does not hold of the code. With the 101 empty files \<^verbatim>\<open>p0\<close> to \<^verbatim>\<open>p100\<close>
  the loop body stores the record of the last file in \<^verbatim>\<open>posts[100]\<close>, behind the end
  of the array, before it compares \<^verbatim>\<open>nposts\<close> with \<^verbatim>\<open>MAX_POSTS\<close>.
\<close>

theorem posts_overrun_at_101_files:
  "main junk qs (Opens (map (\<lambda>i. (''p'' @ dec i, Opens [])) [0..<101])) = Undefined (Posts_Overrun 100)"
proof -
  let ?ent = "\<lambda>i. (''p'' @ dec i, Opens [] :: string opened)"
  let ?st0 = "\<lparr>buf = [], posts = []\<rparr>"
  have split: "map ?ent [0..<101] = map ?ent [0..<100] @ [?ent 100]"
  proof -
    have "[0..<Suc 100] = [0..<100] @ [100]" by (rule upt_Suc_append) simp
    then show ?thesis by simp
  qed
  have small: "\<forall>ent\<in>set (map ?ent [0..<100]). \<not> hidden (fst ent) \<and> snd ent = Opens [] \<and> length (fst ent) \<le> 100"
  proof
    fix ent assume "ent \<in> set (map ?ent [0..<100])"
    then obtain i where i: "i < 100" and ent: "ent = ?ent i" by auto
    have "length (dec i) \<le> 3" using i by (intro dec_length) simp
    then show "\<not> hidden (fst ent) \<and> snd ent = Opens [] \<and> length (fst ent) \<le> 100"
      using ent visible_p by simp
  qed
  have "\<exists>st'. read_dir junk (map ?ent [0..<100]) ?st0 = Inr st' \<and>
           length (posts st') = length (posts ?st0) + length (map ?ent [0..<100]) \<and>
           length (buf st') \<le> length (buf ?st0) + 120 * length (map ?ent [0..<100])"
    using small by (intro read_dir_empty_files) (simp_all add: MAX_POSTS_def BUFFER_SIZE_def METADATA_MAX_SIZE_def)
  then obtain st where st: "read_dir junk (map ?ent [0..<100]) ?st0 = Inr st"
    "length (posts st) = 100" "length (buf st) \<le> 12000"
    by auto
  have "dec 100 = ''100''" by (simp add: dec.simps)
  then have "read_post junk (?ent 100) st = Inl (Undefined (Posts_Overrun 100))"
    using st(2,3) visible_p [of "''100''"]
    by (simp add: read_post_def sprintf_def Let_def c_str_Cons NUL_def
        MAX_POSTS_def BUFFER_SIZE_def METADATA_MAX_SIZE_def)
  with st(1) show ?thesis
    unfolding split by (simp add: main_def read_dir_append)
qed

end
